theory Spec2Isabelle
  imports Complex_Main
begin

chapter \<open>The SQL builder of clickorm\<close>

text \<open>
  A shallow embedding of \<^verbatim>\<open>src/utils/sql-builder.ts\<close>: the \<^verbatim>\<open>SQLBuilder\<close> class
  with its parts, its parameter list and its counter, the helpers that validate and
  quote identifiers and infer the type tag of a parameter, and the statement
  factories. A builder is a record that every method takes and returns; a method
  that can throw returns the error, or its result, as a sum. The definitions come
  first, in the order of the source; the properties follow.

  Strings are lists of 8-bit characters where the source has UTF-16 code units. The
  builder tells only ASCII characters apart; any other character is outside both of
  its character classes, in the source as in this model.
\<close>

section \<open>Strings as the builder uses them\<close>

text \<open>
  \<^verbatim>\<open>Array.prototype.join\<close>: no separator before the first or after the last
  element, the empty string for the empty array.
\<close>

fun join :: "string \<Rightarrow> string list \<Rightarrow> string" where
  "join sep [] = []"
| "join sep [x] = x"
| "join sep (x # y # ys) = x @ sep @ join sep (y # ys)"

text \<open>
  \<^verbatim>\<open>String.prototype.split\<close> with a one-character separator: the empty
  string gives one empty segment, and two adjacent separators give an empty
  segment between them.
\<close>

fun split :: "char \<Rightarrow> string \<Rightarrow> string list" where
  "split d [] = [[]]"
| "split d (c # cs) =
     (if c = d then [] # split d cs
      else (case split d cs of [] \<Rightarrow> [[c]] | t # ts \<Rightarrow> (c # t) # ts))"

text \<open>\<^verbatim>\<open>String.prototype.includes\<close>: the needle occurs at some position.\<close>

fun starts_with :: "string \<Rightarrow> string \<Rightarrow> bool" where
  "starts_with s [] = True"
| "starts_with [] (n # ns) = False"
| "starts_with (c # cs) (n # ns) = (c = n \<and> starts_with cs ns)"

fun includes_str :: "string \<Rightarrow> string \<Rightarrow> bool" where
  "includes_str [] needle = (needle = [])"
| "includes_str (c # cs) needle = (starts_with (c # cs) needle \<or> includes_str cs needle)"

section \<open>Regular expressions\<close>

text \<open>
  The fragment of the regular-expression language that
  \<^verbatim>\<open>validateIdentifier\<close> uses: bracket classes of ranges and single
  characters, sequencing and the star. \<open>Fail\<close>, \<open>Eps\<close> and \<open>Alt\<close> are there for
  the derivatives only. A pattern written between \<^verbatim>\<open>^\<close> and \<^verbatim>\<open>$\<close>
  (no flags) has to match the whole string, which is what \<open>regex_test\<close> decides.
\<close>

datatype char_class = Range char char | Single char

fun in_class :: "char \<Rightarrow> char_class \<Rightarrow> bool" where
  "in_class c (Range lo hi) =
     ((of_char lo :: nat) \<le> of_char c \<and> (of_char c :: nat) \<le> of_char hi)"
| "in_class c (Single d) = (c = d)"

definition in_bracket :: "char_class list \<Rightarrow> char \<Rightarrow> bool" where
  "in_bracket ks c = list_ex (in_class c) ks"

datatype regex =
    Fail
  | Eps
  | Bracket "char_class list"
  | Cat regex regex
  | Alt regex regex
  | Star regex

fun nullable :: "regex \<Rightarrow> bool" where
  "nullable Fail = False"
| "nullable Eps = True"
| "nullable (Bracket ks) = False"
| "nullable (Cat r s) = (nullable r \<and> nullable s)"
| "nullable (Alt r s) = (nullable r \<or> nullable s)"
| "nullable (Star r) = True"

fun deriv :: "char \<Rightarrow> regex \<Rightarrow> regex" where
  "deriv c Fail = Fail"
| "deriv c Eps = Fail"
| "deriv c (Bracket ks) = (if in_bracket ks c then Eps else Fail)"
| "deriv c (Cat r s) =
     (if nullable r then Alt (Cat (deriv c r) s) (deriv c s) else Cat (deriv c r) s)"
| "deriv c (Alt r s) = Alt (deriv c r) (deriv c s)"
| "deriv c (Star r) = Cat (deriv c r) (Star r)"

definition regex_test :: "regex \<Rightarrow> string \<Rightarrow> bool" where
  "regex_test r s = nullable (foldl (\<lambda>q c. deriv c q) r s)"

text \<open>The words of a regular expression, to reason about \<open>regex_test\<close>.\<close>

definition conc :: "string set \<Rightarrow> string set \<Rightarrow> string set" where
  "conc A B = {a @ b | a b. a \<in> A \<and> b \<in> B}"

inductive_set star :: "string set \<Rightarrow> string set" for A :: "string set" where
  star_empty: "[] \<in> star A"
| star_more: "a \<in> A \<Longrightarrow> w \<in> star A \<Longrightarrow> a @ w \<in> star A"

fun lang :: "regex \<Rightarrow> string set" where
  "lang Fail = {}"
| "lang Eps = {[]}"
| "lang (Bracket ks) = {[c] | c. in_bracket ks c}"
| "lang (Cat r s) = conc (lang r) (lang s)"
| "lang (Alt r s) = lang r \<union> lang s"
| "lang (Star r) = star (lang r)"

section \<open>Errors\<close>

text \<open>
  \<^verbatim>\<open>SQLInjectionError\<close> is imported from \<^verbatim>\<open>core/errors.js\<close>; the builder
  constructs it with a message and, in \<^verbatim>\<open>validateIdentifier\<close>, with the
  offending string as second argument. \<open>TypeError\<close> is what
  \<^verbatim>\<open>JSON.stringify\<close> throws.
\<close>

datatype error = SQLInjectionError string "string option" | TypeError

section \<open>Identifiers\<close>

text \<open>\<^verbatim>\<open>/^[a-zA-Z_][a-zA-Z0-9_]*(\.[a-zA-Z_][a-zA-Z0-9_]*)*$/\<close>\<close>

definition name_start :: regex where
  "name_start = Bracket [Range CHR ''a'' CHR ''z'', Range CHR ''A'' CHR ''Z'', Single CHR ''_'']"

definition name_char :: regex where
  "name_char = Bracket [Range CHR ''a'' CHR ''z'', Range CHR ''A'' CHR ''Z'',
                        Range CHR ''0'' CHR ''9'', Single CHR ''_'']"

definition identifier_regex :: regex where
  "identifier_regex =
     Cat (Cat name_start (Star name_char))
         (Star (Cat (Bracket [Single CHR ''.'']) (Cat name_start (Star name_char))))"

definition invalid_identifier_message :: "string \<Rightarrow> string" where
  "invalid_identifier_message s =
     ''Invalid identifier: '' @ s @
     ''. Identifiers must start with a letter or underscore and contain only alphanumeric characters, underscores, or dots.''"

definition validateIdentifier :: "string \<Rightarrow> error + unit" where
  "validateIdentifier s =
     (if \<not> regex_test identifier_regex s
      then Inl (SQLInjectionError (invalid_identifier_message s) (Some s))
      else Inr ())"

text \<open>\<^verbatim>\<open>part.replace(/`/g, '``')\<close>\<close>

definition double_backticks :: "string \<Rightarrow> string" where
  "double_backticks s = concat (map (\<lambda>c. if c = CHR 0x60 then [CHR 0x60, CHR 0x60] else [c]) s)"

definition escapeIdentifier :: "string \<Rightarrow> string" where
  "escapeIdentifier s =
     join ''.'' (map (\<lambda>part. [CHR 0x60] @ double_backticks part @ [CHR 0x60]) (split CHR ''.'' s))"

text \<open>
  \<^verbatim>\<open>identifier\<close> takes a string or an \<^verbatim>\<open>SQLIdentifier\<close> wrapper (declared in
  \<^verbatim>\<open>core/types.js\<close>), of which it reads the \<^verbatim>\<open>value\<close> field.
\<close>

datatype name_arg = NameString string | SQLIdentifier string

fun name_value :: "name_arg \<Rightarrow> string" where
  "name_value (NameString s) = s"
| "name_value (SQLIdentifier v) = v"

definition sb_identifier :: "name_arg \<Rightarrow> error + string" where
  "sb_identifier name =
     (case validateIdentifier (name_value name) of
        Inl e \<Rightarrow> Inl e
      | Inr _ \<Rightarrow> Inr (escapeIdentifier (name_value name)))"

text \<open>The claim's vocabulary: the two character classes, digits, and tokens.\<close>

definition is_letter :: "char \<Rightarrow> bool" where
  "is_letter c = (in_class c (Range CHR ''a'' CHR ''z'') \<or> in_class c (Range CHR ''A'' CHR ''Z''))"

definition is_digit :: "char \<Rightarrow> bool" where
  "is_digit c = in_class c (Range CHR ''0'' CHR ''9'')"

definition start_char :: "char \<Rightarrow> bool" where
  "start_char c = (is_letter c \<or> c = CHR ''_'')"

definition word_char :: "char \<Rightarrow> bool" where
  "word_char c = (is_letter c \<or> is_digit c \<or> c = CHR ''_'')"

fun token_ok :: "string \<Rightarrow> bool" where
  "token_ok [] = False"
| "token_ok (c # cs) = (start_char c \<and> list_all word_char cs)"

definition backticked :: "string \<Rightarrow> string" where
  "backticked t = [CHR 0x60] @ t @ [CHR 0x60]"

fun leading_digit :: "string \<Rightarrow> bool" where
  "leading_digit [] = False"
| "leading_digit (c # cs) = is_digit c"

section \<open>JavaScript values\<close>

text \<open>
  A \<^verbatim>\<open>number\<close> is a finite value or one of the three special values. Finite
  values are rationals: every double is one, and nothing below rounds. The two
  zeros are one value: \<^verbatim>\<open>< 0\<close>, \<^verbatim>\<open>Number.isInteger\<close> and \<^verbatim>\<open>String\<close> do not
  tell them apart.
\<close>

datatype jsnumber = Finite rat | NaN | PosInfinity | NegInfinity

text \<open>
  The kinds of value that \<^verbatim>\<open>param\<close> distinguishes. A \<open>VDate\<close> holds its time
  value in milliseconds, \<open>None\<close> for an invalid date (\<^verbatim>\<open>getTime()\<close> is then
  \<^verbatim>\<open>NaN\<close>). A \<open>VObject\<close> is any other non-null, non-array object, with its own
  enumerable string-keyed properties in iteration order.
\<close>

datatype jsvalue =
    VUndefined
  | VNull
  | VBoolean bool
  | VNumber jsnumber
  | VBigInt int
  | VString string
  | VDate "int option"
  | VArray "jsvalue list"
  | VObject "(string \<times> jsvalue) list"
  | VFunction
  | VSymbol

fun typeof :: "jsvalue \<Rightarrow> string" where
  "typeof VUndefined = ''undefined''"
| "typeof VNull = ''object''"
| "typeof (VBoolean x) = ''boolean''"
| "typeof (VNumber n) = ''number''"
| "typeof (VBigInt i) = ''bigint''"
| "typeof (VString s) = ''string''"
| "typeof (VDate t) = ''object''"
| "typeof (VArray xs) = ''object''"
| "typeof (VObject ps) = ''object''"
| "typeof VFunction = ''function''"
| "typeof VSymbol = ''symbol''"

fun instanceof_Date :: "jsvalue \<Rightarrow> bool" where
  "instanceof_Date (VDate t) = True"
| "instanceof_Date v = False"

fun isArray :: "jsvalue \<Rightarrow> bool" where
  "isArray (VArray xs) = True"
| "isArray v = False"

fun isInteger :: "jsvalue \<Rightarrow> bool" where
  "isInteger (VNumber (Finite q)) = (of_int \<lfloor>q\<rfloor> = q)"
| "isInteger v = False"

text \<open>
  \<^verbatim>\<open>Math.floor(value.getTime() / 1000)\<close>. A valid time value is an integer of
  magnitude at most 8.64e15; its quotient by 1000 is below 2^43, where
  neighbouring doubles are less than 1/1000 apart, so the rounded quotient has
  the floor of the exact one.
\<close>

fun getTime_seconds :: "jsvalue \<Rightarrow> jsnumber" where
  "getTime_seconds (VDate (Some ms)) = Finite (of_int (ms div 1000))"
| "getTime_seconds v = NaN"

fun less_than_zero :: "jsnumber \<Rightarrow> bool" where
  "less_than_zero (Finite q) = (q < 0)"
| "less_than_zero NaN = False"
| "less_than_zero PosInfinity = False"
| "less_than_zero NegInfinity = True"

text \<open>
  Two built-ins of the runtime are parameters of the model:
  \<^verbatim>\<open>JSON.stringify\<close> (which returns a text or \<^verbatim>\<open>undefined\<close>, or throws a
  \<^verbatim>\<open>TypeError\<close>), and the number-to-string conversion of the finite numbers
  that are not integers of magnitude below 2^53. For those integers the
  conversion is the decimal numeral, defined here.
\<close>

record js_runtime =
  JSON_stringify :: "jsvalue \<Rightarrow> error + string option"
  Number_toString :: "rat \<Rightarrow> string"

definition digit :: "nat \<Rightarrow> char" where
  "digit d = ''0123456789'' ! d"

function decimal :: "nat \<Rightarrow> string" where
  "decimal n = (if n < 10 then [digit n] else decimal (n div 10) @ [digit (n mod 10)])"
  by pat_completeness auto
termination
  by (relation "measure id") auto

declare decimal.simps [simp del]

definition String_of_number :: "js_runtime \<Rightarrow> jsnumber \<Rightarrow> string" where
  "String_of_number rt x =
     (case x of
        NaN \<Rightarrow> ''NaN''
      | PosInfinity \<Rightarrow> ''Infinity''
      | NegInfinity \<Rightarrow> ''-Infinity''
      | Finite q \<Rightarrow>
          if of_int \<lfloor>q\<rfloor> = q \<and> \<bar>q\<bar> < 2 ^ 53
          then (if q < 0 then ''-'' @ decimal (nat (- \<lfloor>q\<rfloor>)) else decimal (nat \<lfloor>q\<rfloor>))
          else Number_toString rt q)"

section \<open>The builder\<close>

text \<open>
  The three private fields of \<^verbatim>\<open>SQLBuilder\<close>. The counter is a natural number; the
  source's counter is exact up to 2^53, which no builder reaches.
\<close>

record builder =
  parts :: "string list"
  parameters :: "jsvalue list"
  paramCounter :: nat

definition new_SQLBuilder :: builder where
  "new_SQLBuilder = \<lparr>parts = [], parameters = [], paramCounter = 0\<rparr>"

text \<open>
  A method mutates the builder and returns, or throws. A throw keeps what the
  method had already pushed, so the error comes with the builder as it is then.
\<close>

type_synonym step = "(error \<times> builder) + builder"

definition push :: "string \<Rightarrow> builder \<Rightarrow> builder" where
  "push s b = b\<lparr>parts := parts b @ [s]\<rparr>"

text \<open>Statements one after the other; the first throw ends the sequence.\<close>

fun run :: "(builder \<Rightarrow> step) list \<Rightarrow> builder \<Rightarrow> step" where
  "run [] b = Inr b"
| "run (f # fs) b = (case f b of Inl e \<Rightarrow> Inl e | Inr b' \<Rightarrow> run fs b')"

definition sb_raw :: "string \<Rightarrow> builder \<Rightarrow> step" where
  "sb_raw s b = Inr (push s b)"

subsection \<open>Parameters\<close>

definition inferClickHouseType :: "jsvalue \<Rightarrow> jsvalue \<Rightarrow> string" where
  "inferClickHouseType v originalValue =
     (if originalValue \<noteq> VUndefined \<and> typeof originalValue = ''boolean'' then ''UInt8''
      else if instanceof_Date originalValue then ''DateTime''
      else if v = VNull \<or> v = VUndefined then ''Nullable(String)''
      else if typeof v = ''number'' then (if isInteger v then ''Int32'' else ''Float64'')
      else if typeof v = ''bigint'' then ''Int64''
      else if typeof v = ''string'' then ''String''
      else if typeof v = ''boolean'' then ''UInt8''
      else if typeof v = ''object'' then
        (if instanceof_Date v then ''DateTime''
         else if isArray v then ''Array(String)''
         else ''String'')
      else ''String'')"

text \<open>The value that \<^verbatim>\<open>param\<close> stores (its local \<^verbatim>\<open>paramValue\<close>).\<close>

definition paramValue :: "js_runtime \<Rightarrow> jsvalue \<Rightarrow> error + jsvalue" where
  "paramValue rt v =
     (if instanceof_Date v then Inr (VNumber (getTime_seconds v))
      else if typeof v = ''boolean'' then Inr (VNumber (Finite (if v = VBoolean True then 1 else 0)))
      else if typeof v = ''object'' \<and> v \<noteq> VNull \<and> \<not> isArray v \<and> \<not> instanceof_Date v then
        (case JSON_stringify rt v of
           Inl e \<Rightarrow> Inl e
         | Inr None \<Rightarrow> Inr VUndefined
         | Inr (Some text) \<Rightarrow> Inr (VString text))
      else Inr v)"

definition placeholder :: "nat \<Rightarrow> string \<Rightarrow> string" where
  "placeholder n tag = ''{param'' @ decimal n @ '':'' @ tag @ ''}''"

definition sb_param :: "js_runtime \<Rightarrow> jsvalue \<Rightarrow> builder \<Rightarrow> (error \<times> builder) + (string \<times> builder)" where
  "sb_param rt v b =
     (case paramValue rt v of
        Inl e \<Rightarrow> Inl (e, b)
      | Inr pv \<Rightarrow>
          Inr (placeholder (paramCounter b) (inferClickHouseType pv v),
               b\<lparr>parameters := parameters b @ [pv], paramCounter := paramCounter b + 1\<rparr>))"

fun sb_params :: "js_runtime \<Rightarrow> jsvalue list \<Rightarrow> builder \<Rightarrow> (error \<times> builder) + (string list \<times> builder)" where
  "sb_params rt [] b = Inr ([], b)"
| "sb_params rt (v # vs) b =
     (case sb_param rt v b of
        Inl e \<Rightarrow> Inl e
      | Inr (ph, b1) \<Rightarrow>
          (case sb_params rt vs b1 of
             Inl e \<Rightarrow> Inl e
           | Inr (phs, b2) \<Rightarrow> Inr (ph # phs, b2)))"

fun sb_identifiers :: "string list \<Rightarrow> error + string list" where
  "sb_identifiers [] = Inr []"
| "sb_identifiers (n # ns) =
     (case sb_identifier (NameString n) of
        Inl e \<Rightarrow> Inl e
      | Inr q \<Rightarrow>
          (case sb_identifiers ns of
             Inl e \<Rightarrow> Inl e
           | Inr qs \<Rightarrow> Inr (q # qs)))"

text \<open>Push the quoted name, or throw with the builder as it is.\<close>

definition push_identifier :: "string \<Rightarrow> builder \<Rightarrow> step" where
  "push_identifier n b =
     (case sb_identifier (NameString n) of
        Inl e \<Rightarrow> Inl (e, b)
      | Inr q \<Rightarrow> Inr (push q b))"

subsection \<open>Clause builders\<close>

definition sb_select :: "string list \<Rightarrow> builder \<Rightarrow> step" where
  "sb_select field_names b =
     (if length field_names = 0 then Inl (SQLInjectionError ''SELECT fields cannot be empty'' None, b)
      else
        let b1 = push ''SELECT'' b in
        if ''*'' \<in> set field_names then Inr (push ''*'' b1)
        else (case sb_identifiers field_names of
                Inl e \<Rightarrow> Inl (e, b1)
              | Inr qs \<Rightarrow> Inr (push (join '', '' qs) b1)))"

text \<open>
  An optional string argument is \<open>None\<close> when it is left out; \<^verbatim>\<open>if (alias)\<close>
  also skips the empty string.
\<close>

definition push_alias :: "string option \<Rightarrow> builder \<Rightarrow> step" where
  "push_alias alias b =
     (case alias of
        None \<Rightarrow> Inr b
      | Some a \<Rightarrow> if a \<noteq> [] then run [\<lambda>b. Inr (push ''AS'' b), push_identifier a] b else Inr b)"

definition sb_from :: "string \<Rightarrow> string option \<Rightarrow> builder \<Rightarrow> step" where
  "sb_from table alias b =
     run [\<lambda>b. Inr (push ''FROM'' b), push_identifier table, push_alias alias] b"

definition sb_where :: "string \<Rightarrow> builder \<Rightarrow> step" where
  "sb_where condition b = Inr (push condition (push ''WHERE'' b))"

definition sb_and :: "string \<Rightarrow> builder \<Rightarrow> step" where
  "sb_and condition b = Inr (push condition (push ''AND'' b))"

definition sb_or :: "string \<Rightarrow> builder \<Rightarrow> step" where
  "sb_or condition b = Inr (push condition (push ''OR'' b))"

datatype direction = ASC | DESC

fun direction_text :: "direction \<Rightarrow> string" where
  "direction_text ASC = ''ASC''"
| "direction_text DESC = ''DESC''"

text \<open>The direction is \<open>None\<close> when the caller leaves it out; it then defaults to \<open>ASC\<close>.\<close>

definition sb_orderBy :: "string \<Rightarrow> direction option \<Rightarrow> builder \<Rightarrow> step" where
  "sb_orderBy field dir b =
     (let direction = (case dir of None \<Rightarrow> ASC | Some d \<Rightarrow> d) in
      if includes_str (join '' '' (parts b)) ''ORDER BY''
      then run [\<lambda>b. Inr (push '','' b), push_identifier field,
                \<lambda>b. Inr (push (direction_text direction) b)] b
      else run [\<lambda>b. Inr (push ''ORDER BY'' b), push_identifier field,
                \<lambda>b. Inr (push (direction_text direction) b)] b)"

definition sb_groupBy :: "string list \<Rightarrow> builder \<Rightarrow> step" where
  "sb_groupBy field_names b =
     (let b1 = push ''GROUP BY'' b in
      case sb_identifiers field_names of
        Inl e \<Rightarrow> Inl (e, b1)
      | Inr qs \<Rightarrow> Inr (push (join '', '' qs) b1))"

definition sb_limit :: "js_runtime \<Rightarrow> jsnumber \<Rightarrow> builder \<Rightarrow> step" where
  "sb_limit rt count b =
     (if less_than_zero count then Inl (SQLInjectionError ''LIMIT must be non-negative'' None, b)
      else Inr (push (String_of_number rt count) (push ''LIMIT'' b)))"

definition sb_offset :: "js_runtime \<Rightarrow> jsnumber \<Rightarrow> builder \<Rightarrow> step" where
  "sb_offset rt count b =
     (if less_than_zero count then Inl (SQLInjectionError ''OFFSET must be non-negative'' None, b)
      else Inr (push (String_of_number rt count) (push ''OFFSET'' b)))"

datatype join_type = INNER | LEFT | RIGHT | FULL | CROSS

fun join_type_text :: "join_type \<Rightarrow> string" where
  "join_type_text INNER = ''INNER''"
| "join_type_text LEFT = ''LEFT''"
| "join_type_text RIGHT = ''RIGHT''"
| "join_type_text FULL = ''FULL''"
| "join_type_text CROSS = ''CROSS''"

definition sb_join :: "join_type \<Rightarrow> string \<Rightarrow> string option \<Rightarrow> string option \<Rightarrow> builder \<Rightarrow> step" where
  "sb_join type table on alias b =
     run [\<lambda>b. Inr (push (join_type_text type @ '' JOIN'') b),
          push_identifier table,
          push_alias alias,
          \<lambda>b. (case on of
                  None \<Rightarrow> Inr b
                | Some c \<Rightarrow> if c \<noteq> [] \<and> type \<noteq> CROSS then Inr (push c (push ''ON'' b)) else Inr b)] b"

definition sb_insertInto :: "string \<Rightarrow> string list \<Rightarrow> builder \<Rightarrow> step" where
  "sb_insertInto table field_names b =
     run [\<lambda>b. Inr (push ''INSERT INTO'' b),
          push_identifier table,
          \<lambda>b. (case sb_identifiers field_names of
                  Inl e \<Rightarrow> Inl (e, b)
                | Inr qs \<Rightarrow> Inr (push (''('' @ join '', '' qs @ '')'') b))] b"

text \<open>One parenthesised placeholder list per row, the rows in order.\<close>

fun valueSets :: "js_runtime \<Rightarrow> jsvalue list list \<Rightarrow> builder \<Rightarrow> (error \<times> builder) + (string list \<times> builder)" where
  "valueSets rt [] b = Inr ([], b)"
| "valueSets rt (row # rows) b =
     (case sb_params rt row b of
        Inl e \<Rightarrow> Inl e
      | Inr (placeholders, b1) \<Rightarrow>
          (case valueSets rt rows b1 of
             Inl e \<Rightarrow> Inl e
           | Inr (sets, b2) \<Rightarrow> Inr ((''('' @ join '', '' placeholders @ '')'') # sets, b2)))"

definition sb_values :: "js_runtime \<Rightarrow> jsvalue list list \<Rightarrow> builder \<Rightarrow> step" where
  "sb_values rt rows b =
     (case valueSets rt rows (push ''VALUES'' b) of
        Inl e \<Rightarrow> Inl e
      | Inr (sets, b1) \<Rightarrow> Inr (push (join '', '' sets) b1))"

definition sb_update :: "string \<Rightarrow> builder \<Rightarrow> step" where
  "sb_update table b = run [\<lambda>b. Inr (push ''UPDATE'' b), push_identifier table] b"

text \<open>
  \<^verbatim>\<open>Object.entries(m).map(([key, value]) => `${identifier(key)} = ${param(value)}`)\<close>:
  the entries in iteration order, the name checked before the value is stored.
  \<^verbatim>\<open>set\<close> and the three statement factories with a filter all map their
  entries this way.
\<close>

fun assignments :: "js_runtime \<Rightarrow> (string \<times> jsvalue) list \<Rightarrow> builder \<Rightarrow> (error \<times> builder) + (string list \<times> builder)" where
  "assignments rt [] b = Inr ([], b)"
| "assignments rt ((key, v) # entries) b =
     (case sb_identifier (NameString key) of
        Inl e \<Rightarrow> Inl (e, b)
      | Inr q \<Rightarrow>
          (case sb_param rt v b of
             Inl e \<Rightarrow> Inl e
           | Inr (ph, b1) \<Rightarrow>
               (case assignments rt entries b1 of
                  Inl e \<Rightarrow> Inl e
                | Inr (rest, b2) \<Rightarrow> Inr ((q @ '' = '' @ ph) # rest, b2))))"

definition sb_set :: "js_runtime \<Rightarrow> (string \<times> jsvalue) list \<Rightarrow> builder \<Rightarrow> step" where
  "sb_set rt updates b =
     (case assignments rt updates (push ''SET'' b) of
        Inl e \<Rightarrow> Inl e
      | Inr (items, b1) \<Rightarrow> Inr (push (join '', '' items) b1))"

definition sb_deleteFrom :: "string \<Rightarrow> builder \<Rightarrow> step" where
  "sb_deleteFrom table b = run [\<lambda>b. Inr (push ''DELETE FROM'' b), push_identifier table] b"

record query =
  sql :: string
  params :: "jsvalue list"

definition sb_toSQL :: "builder \<Rightarrow> string" where
  "sb_toSQL b = join '' '' (parts b)"

definition sb_getParams :: "builder \<Rightarrow> jsvalue list" where
  "sb_getParams b = parameters b"

definition sb_build :: "builder \<Rightarrow> query" where
  "sb_build b = \<lparr>sql = join '' '' (parts b), params = parameters b\<rparr>"

definition sb_reset :: "builder \<Rightarrow> step" where
  "sb_reset b = Inr (b\<lparr>parts := [], parameters := [], paramCounter := 0\<rparr>)"

section \<open>Statement factories\<close>

text \<open>
  A factory works on a builder of its own, so a throw leaves the caller with
  the error alone.
\<close>

definition finish :: "step \<Rightarrow> error + query" where
  "finish r = (case r of Inl (e, b) \<Rightarrow> Inl e | Inr b \<Rightarrow> Inr (sb_build b))"

text \<open>
  The filter stage, which the three factories with a filter write out alike:
  \<^verbatim>\<open>if (Object.keys(where).length > 0)\<close>, the equalities joined by \<^verbatim>\<open>AND\<close> go into
  one \<^verbatim>\<open>where\<close> call. \<^verbatim>\<open>buildSelect\<close> first tests that the mapping is given.
\<close>

definition where_equalities :: "js_runtime \<Rightarrow> (string \<times> jsvalue) list \<Rightarrow> builder \<Rightarrow> step" where
  "where_equalities rt where_map b =
     (if length where_map > 0 then
        (case assignments rt where_map b of
           Inl e \<Rightarrow> Inl e
         | Inr (conditions, b1) \<Rightarrow> sb_where (join '' AND '' conditions) b1)
      else Inr b)"

record select_options =
  opt_fields :: "string list option"
  opt_where :: "(string \<times> jsvalue) list option"
  opt_orderBy :: "(string \<times> direction) list option"
  opt_limit :: "jsnumber option"
  opt_offset :: "jsnumber option"

text \<open>The statements of \<^verbatim>\<open>buildSelect\<close>, in order.\<close>

definition buildSelect_steps :: "js_runtime \<Rightarrow> string \<Rightarrow> select_options \<Rightarrow> (builder \<Rightarrow> step) list" where
  "buildSelect_steps rt table options =
     [sb_select (case opt_fields options of None \<Rightarrow> [''*''] | Some fs \<Rightarrow> fs),
      sb_from table None,
      \<lambda>b. (case opt_where options of
              None \<Rightarrow> Inr b
            | Some where_map \<Rightarrow> where_equalities rt where_map b),
      \<lambda>b. (case opt_orderBy options of
              None \<Rightarrow> Inr b
            | Some order \<Rightarrow> run (map (\<lambda>(field, direction). sb_orderBy field (Some direction)) order) b),
      \<lambda>b. (case opt_limit options of None \<Rightarrow> Inr b | Some n \<Rightarrow> sb_limit rt n b),
      \<lambda>b. (case opt_offset options of None \<Rightarrow> Inr b | Some n \<Rightarrow> sb_offset rt n b)]"

definition buildSelect :: "js_runtime \<Rightarrow> string \<Rightarrow> select_options \<Rightarrow> error + query" where
  "buildSelect rt table options = finish (run (buildSelect_steps rt table options) new_SQLBuilder)"

text \<open>
  \<^verbatim>\<open>buildInsert\<close> takes one record or an array of records. The columns are the keys
  of the first record. A record is a plain object, so \<^verbatim>\<open>record[field]\<close> for a key
  that the record lacks reads \<^verbatim>\<open>Object.prototype\<close>: the inherited methods are
  functions, \<^verbatim>\<open>__proto__\<close> reads as the prototype itself (an object with no
  enumerable property), and every other key gives \<^verbatim>\<open>undefined\<close>.
\<close>

datatype insert_data = OneRecord "(string \<times> jsvalue) list" | Records "(string \<times> jsvalue) list list"

definition Object_prototype :: "string \<Rightarrow> jsvalue option" where
  "Object_prototype key =
     (if key \<in> set [''constructor'', ''hasOwnProperty'', ''isPrototypeOf'',
                     ''propertyIsEnumerable'', ''toLocaleString'', ''toString'', ''valueOf'',
                     ''__defineGetter__'', ''__defineSetter__'',
                     ''__lookupGetter__'', ''__lookupSetter__'']
      then Some VFunction
      else if key = ''__proto__'' then Some (VObject [])
      else None)"

definition get_field :: "(string \<times> jsvalue) list \<Rightarrow> string \<Rightarrow> jsvalue" where
  "get_field record field =
     (case map_of record field of
        Some v \<Rightarrow> v
      | None \<Rightarrow> (case Object_prototype field of Some v \<Rightarrow> v | None \<Rightarrow> VUndefined))"

definition buildInsert :: "js_runtime \<Rightarrow> string \<Rightarrow> insert_data \<Rightarrow> error + query" where
  "buildInsert rt table data =
     (let records = (case data of Records rs \<Rightarrow> rs | OneRecord r \<Rightarrow> [r]) in
      case records of
        [] \<Rightarrow> Inl (SQLInjectionError ''INSERT requires at least one record'' None)
      | first # _ \<Rightarrow>
          let field_names = map fst first;
              rows = map (\<lambda>record. map (get_field record) field_names) records
          in finish (run [sb_insertInto table field_names, sb_values rt rows] new_SQLBuilder))"

definition buildUpdate :: "js_runtime \<Rightarrow> string \<Rightarrow> (string \<times> jsvalue) list \<Rightarrow> (string \<times> jsvalue) list \<Rightarrow> error + query" where
  "buildUpdate rt table data where_map =
     finish (run [sb_update table, sb_set rt data, where_equalities rt where_map] new_SQLBuilder)"

definition buildDelete :: "js_runtime \<Rightarrow> string \<Rightarrow> (string \<times> jsvalue) list \<Rightarrow> error + query" where
  "buildDelete rt table where_map =
     finish (run [sb_deleteFrom table, where_equalities rt where_map] new_SQLBuilder)"

section \<open>Calls on one builder\<close>

text \<open>
  The public methods of \<^verbatim>\<open>SQLBuilder\<close> as data, and the builder a call leaves
  behind, whether it returns or throws.
\<close>

datatype call =
    CallRaw string
  | CallParam jsvalue
  | CallParams "jsvalue list"
  | CallIdentifier name_arg
  | CallIdentifiers "string list"
  | CallSelect "string list"
  | CallFrom string "string option"
  | CallWhere string
  | CallAnd string
  | CallOr string
  | CallOrderBy string "direction option"
  | CallGroupBy "string list"
  | CallLimit jsnumber
  | CallOffset jsnumber
  | CallJoin join_type string "string option" "string option"
  | CallInsertInto string "string list"
  | CallValues "jsvalue list list"
  | CallUpdate string
  | CallSet "(string \<times> jsvalue) list"
  | CallDeleteFrom string
  | CallBuild
  | CallToSQL
  | CallGetParams
  | CallReset

definition step_state :: "step \<Rightarrow> builder" where
  "step_state r = (case r of Inl (e, b) \<Rightarrow> b | Inr b \<Rightarrow> b)"

definition outcome_state :: "(error \<times> builder) + ('a \<times> builder) \<Rightarrow> builder" where
  "outcome_state r = (case r of Inl (e, b) \<Rightarrow> b | Inr (x, b) \<Rightarrow> b)"

fun state_after :: "js_runtime \<Rightarrow> call \<Rightarrow> builder \<Rightarrow> builder" where
  "state_after rt (CallRaw s) b = step_state (sb_raw s b)"
| "state_after rt (CallParam v) b = outcome_state (sb_param rt v b)"
| "state_after rt (CallParams vs) b = outcome_state (sb_params rt vs b)"
| "state_after rt (CallIdentifier n) b = b"
| "state_after rt (CallIdentifiers ns) b = b"
| "state_after rt (CallSelect fs) b = step_state (sb_select fs b)"
| "state_after rt (CallFrom table alias) b = step_state (sb_from table alias b)"
| "state_after rt (CallWhere c) b = step_state (sb_where c b)"
| "state_after rt (CallAnd c) b = step_state (sb_and c b)"
| "state_after rt (CallOr c) b = step_state (sb_or c b)"
| "state_after rt (CallOrderBy field dir) b = step_state (sb_orderBy field dir b)"
| "state_after rt (CallGroupBy fs) b = step_state (sb_groupBy fs b)"
| "state_after rt (CallLimit n) b = step_state (sb_limit rt n b)"
| "state_after rt (CallOffset n) b = step_state (sb_offset rt n b)"
| "state_after rt (CallJoin type table on alias) b = step_state (sb_join type table on alias b)"
| "state_after rt (CallInsertInto table fs) b = step_state (sb_insertInto table fs b)"
| "state_after rt (CallValues rows) b = step_state (sb_values rt rows b)"
| "state_after rt (CallUpdate table) b = step_state (sb_update table b)"
| "state_after rt (CallSet updates) b = step_state (sb_set rt updates b)"
| "state_after rt (CallDeleteFrom table) b = step_state (sb_deleteFrom table b)"
| "state_after rt CallBuild b = b"
| "state_after rt CallToSQL b = b"
| "state_after rt CallGetParams b = b"
| "state_after rt CallReset b = step_state (sb_reset b)"

text \<open>
  A runtime for the examples. It is right where the examples use it: the empty
  object serialises to \<^verbatim>\<open>{}\<close>; for the object of the examples whose only property is
  a \<^verbatim>\<open>toJSON\<close> method, one that returns \<^verbatim>\<open>undefined\<close>, \<^verbatim>\<open>JSON.stringify\<close> returns
  \<^verbatim>\<open>undefined\<close>; an object that holds a bigint makes it throw a \<^verbatim>\<open>TypeError\<close>; and
  one half prints as \<^verbatim>\<open>0.5\<close>.
\<close>

definition example_runtime :: js_runtime where
  "example_runtime =
     \<lparr>JSON_stringify =
        (\<lambda>v. if v = VObject [] then Inr (Some ''{}'')
             else if v = VObject [(''toJSON'', VFunction)] then Inr None
             else Inl TypeError),
      Number_toString = (\<lambda>q. ''0.5'')\<rparr>"

section \<open>Vocabulary of the claims\<close>

text \<open>The number that a string of decimal digits denotes, read digit by digit.\<close>

definition digit_value :: "char \<Rightarrow> nat" where
  "digit_value c = of_char c - 48"

text \<open>A name that \<^verbatim>\<open>identifier\<close> accepts, and what it returns for it.\<close>

definition valid_name :: "string \<Rightarrow> bool" where
  "valid_name s = list_all token_ok (split CHR ''.'' s)"

definition quoted :: "string \<Rightarrow> string" where
  "quoted s = join ''.'' (map backticked (split CHR ''.'' s))"

text \<open>
  What \<^verbatim>\<open>param\<close> gives when it returns: the placeholder with the counter's value
  and the tag, and the builder with the wire value stored and the counter one up.
\<close>

definition param_returns :: "builder \<Rightarrow> string \<Rightarrow> jsvalue \<Rightarrow> (error \<times> builder) + (string \<times> builder)" where
  "param_returns b tag wire =
     Inr (placeholder (paramCounter b) tag,
          b\<lparr>parameters := parameters b @ [wire], paramCounter := paramCounter b + 1\<rparr>)"

text \<open>
  The second builder has as many more parameters than the first as its counter
  is higher.
\<close>

definition advances :: "builder \<Rightarrow> builder \<Rightarrow> bool" where
  "advances b b' =
     (paramCounter b \<le> paramCounter b' \<and> length (parameters b) \<le> length (parameters b') \<and>
      paramCounter b' - paramCounter b = length (parameters b') - length (parameters b))"

section \<open>Condition compiler\<close>

text \<open>
  Modelled from the spec: the condition compiler (the WHERE builder that the README
  lists as \<^verbatim>\<open>src/query/where.ts\<close>) is not among the sources, so this section
  follows the lowering rules of the specification, on the canonical tree that both
  surface syntaxes are normalised to. A combinator node of kind AND or OR is a
  \<open>Combinator\<close>, one of kind NOT a \<open>Negation\<close>; both have their children in order.
\<close>

datatype operator =
  Eq | Ne | Gt | Gte | Lt | Lte | In | NotIn | Like | ILike | IsNull | NotNull | Between

datatype logic = AND | OR

datatype condition =
    Leaf string operator jsvalue
  | Combinator logic "condition list"
  | Negation "condition list"

text \<open>
  Modelled from the spec: what the specification leaves open is a parameter of the
  model. These are the SQL spelling of the six comparison operators, the fragment of
  a combinator with no children (the specification asks for a tautology or a
  contradiction and fixes neither text), and the messages of the rejections.
\<close>

record lowering_choices =
  comparison_text :: "operator \<Rightarrow> string"
  empty_group :: "logic \<Rightarrow> string"
  malformed_operand :: "operator \<Rightarrow> string"
  malformed_negation :: string

text \<open>
  Modelled from the spec: the fragment that lowering produces, kept as a tree until
  it is rendered. There is leaf text, a group of fragments joined by a keyword, a
  fragment between parentheses, and a fragment wrapped in \<^verbatim>\<open>NOT (...)\<close>.
\<close>

datatype fragment =
    Text string
  | Joined logic "fragment list"
  | Parenthesized fragment
  | Negated fragment

fun keyword :: "logic \<Rightarrow> string" where
  "keyword AND = ''AND''"
| "keyword OR = ''OR''"

fun render :: "fragment \<Rightarrow> string" where
  "render (Text s) = s"
| "render (Joined k fs) = join ('' '' @ keyword k @ '' '') (map render fs)"
| "render (Parenthesized f) = ''('' @ render f @ '')''"
| "render (Negated f) = ''NOT ('' @ render f @ '')''"

text \<open>
  Modelled from the spec: a leaf becomes the validated field, the SQL operator and
  the placeholder of its operand, through the builder's \<^verbatim>\<open>identifier\<close> and
  \<^verbatim>\<open>param\<close>.
\<close>

definition lower_comparison ::
  "js_runtime \<Rightarrow> string \<Rightarrow> string \<Rightarrow> jsvalue \<Rightarrow> builder \<Rightarrow> (error \<times> builder) + (string \<times> builder)" where
  "lower_comparison rt q symbol operand b =
     (case sb_param rt operand b of
        Inl e \<Rightarrow> Inl e
      | Inr (ph, b1) \<Rightarrow> Inr (q @ '' '' @ symbol @ '' '' @ ph, b1))"

text \<open>
  Modelled from the spec: \<^verbatim>\<open>in\<close> and \<^verbatim>\<open>notIn\<close> expand to a parenthesised list of
  placeholders, one per element, joined by a comma and a space as the builder's own
  lists are; an operand that is not a non-empty array is rejected.
\<close>

definition lower_membership ::
  "js_runtime \<Rightarrow> lowering_choices \<Rightarrow> string \<Rightarrow> operator \<Rightarrow> string \<Rightarrow> jsvalue \<Rightarrow> builder
   \<Rightarrow> (error \<times> builder) + (string \<times> builder)" where
  "lower_membership rt ch q op symbol operand b =
     (case operand of
        VArray (x # xs) \<Rightarrow>
          (case sb_params rt (x # xs) b of
             Inl e \<Rightarrow> Inl e
           | Inr (phs, b1) \<Rightarrow> Inr (q @ '' '' @ symbol @ '' ('' @ join '', '' phs @ '')'', b1))
      | _ \<Rightarrow> Inl (SQLInjectionError (malformed_operand ch op) None, b))"

text \<open>
  Modelled from the spec: \<^verbatim>\<open>between\<close> takes an operand of exactly two elements and
  expands to the field, \<^verbatim>\<open>BETWEEN\<close>, a placeholder, \<^verbatim>\<open>AND\<close> and a placeholder.
\<close>

definition lower_between ::
  "js_runtime \<Rightarrow> lowering_choices \<Rightarrow> string \<Rightarrow> jsvalue \<Rightarrow> builder
   \<Rightarrow> (error \<times> builder) + (string \<times> builder)" where
  "lower_between rt ch q operand b =
     (case operand of
        VArray [lo, hi] \<Rightarrow>
          (case sb_param rt lo b of
             Inl e \<Rightarrow> Inl e
           | Inr (ph1, b1) \<Rightarrow>
               (case sb_param rt hi b1 of
                  Inl e \<Rightarrow> Inl e
                | Inr (ph2, b2) \<Rightarrow> Inr (q @ '' BETWEEN '' @ ph1 @ '' AND '' @ ph2, b2)))
      | _ \<Rightarrow> Inl (SQLInjectionError (malformed_operand ch Between) None, b))"

text \<open>
  Modelled from the spec: the lowering of a leaf by operator. \<^verbatim>\<open>isNull\<close> and
  \<^verbatim>\<open>notNull\<close> take no placeholder; \<^verbatim>\<open>like\<close> and \<^verbatim>\<open>ilike\<close> differ in the keyword.
\<close>

definition lower_leaf ::
  "js_runtime \<Rightarrow> lowering_choices \<Rightarrow> string \<Rightarrow> operator \<Rightarrow> jsvalue \<Rightarrow> builder
   \<Rightarrow> (error \<times> builder) + (string \<times> builder)" where
  "lower_leaf rt ch field op operand b =
     (case sb_identifier (NameString field) of
        Inl e \<Rightarrow> Inl (e, b)
      | Inr q \<Rightarrow>
          (case op of
             IsNull \<Rightarrow> Inr (q @ '' IS NULL'', b)
           | NotNull \<Rightarrow> Inr (q @ '' IS NOT NULL'', b)
           | In \<Rightarrow> lower_membership rt ch q In ''IN'' operand b
           | NotIn \<Rightarrow> lower_membership rt ch q NotIn ''NOT IN'' operand b
           | Between \<Rightarrow> lower_between rt ch q operand b
           | Like \<Rightarrow> lower_comparison rt q ''LIKE'' operand b
           | ILike \<Rightarrow> lower_comparison rt q ''ILIKE'' operand b
           | _ \<Rightarrow> lower_comparison rt q (comparison_text ch op) operand b))"

text \<open>
  Modelled from the spec: a combinator joins its lowered children with its keyword
  and puts the joined group between parentheses whenever it has more than one child
  or is itself beneath another combinator (\<open>nested\<close>); one with no children lowers to
  the chosen constant fragment. NOT wraps the lowered fragment of its single child in
  \<^verbatim>\<open>NOT (...)\<close>; the specification is silent on a NOT node with no child or with
  several, which is rejected here. The children of a node are lowered left to right
  on the same builder, so the parameters come in the order in which the leaves are
  visited.
\<close>

fun lower ::
    "js_runtime \<Rightarrow> lowering_choices \<Rightarrow> bool \<Rightarrow> condition \<Rightarrow> builder
     \<Rightarrow> (error \<times> builder) + (fragment \<times> builder)"
  and lower_children ::
    "js_runtime \<Rightarrow> lowering_choices \<Rightarrow> condition list \<Rightarrow> builder
     \<Rightarrow> (error \<times> builder) + (fragment list \<times> builder)" where
  "lower rt ch nested (Leaf field op operand) b =
     (case lower_leaf rt ch field op operand b of
        Inl e \<Rightarrow> Inl e
      | Inr (s, b1) \<Rightarrow> Inr (Text s, b1))"
| "lower rt ch nested (Combinator k children) b =
     (if children = [] then Inr (Text (empty_group ch k), b)
      else
        (case lower_children rt ch children b of
           Inl e \<Rightarrow> Inl e
         | Inr (fs, b1) \<Rightarrow>
             Inr (if length children > 1 \<or> nested then Parenthesized (Joined k fs) else Joined k fs, b1)))"
| "lower rt ch nested (Negation children) b =
     (case children of
        [child] \<Rightarrow>
          (case lower rt ch True child b of
             Inl e \<Rightarrow> Inl e
           | Inr (f, b1) \<Rightarrow> Inr (Negated f, b1))
      | _ \<Rightarrow> Inl (SQLInjectionError (malformed_negation ch) None, b))"
| "lower_children rt ch [] b = Inr ([], b)"
| "lower_children rt ch (c # cs) b =
     (case lower rt ch True c b of
        Inl e \<Rightarrow> Inl e
      | Inr (f, b1) \<Rightarrow>
          (case lower_children rt ch cs b1 of
             Inl e \<Rightarrow> Inl e
           | Inr (fs, b2) \<Rightarrow> Inr (f # fs, b2)))"

text \<open>
  Modelled from the spec: the compiler's result, one SQL fragment and the builder
  with the parameters appended. The condition at the top is beneath no combinator.
\<close>

definition compileCondition ::
  "js_runtime \<Rightarrow> lowering_choices \<Rightarrow> condition \<Rightarrow> builder \<Rightarrow> (error \<times> builder) + (string \<times> builder)" where
  "compileCondition rt ch c b =
     (case lower rt ch False c b of
        Inl e \<Rightarrow> Inl e
      | Inr (f, b1) \<Rightarrow> Inr (render f, b1))"

subsection \<open>Reading a fragment\<close>

text \<open>
  How a dialect may group what it reads. A fragment between parentheses, a negated
  fragment and leaf text are one operand each. A joined group is a flat sequence:
  its first operand, then keyword and operand pairs; a child that is itself a joined
  group without parentheses runs into the sequence of its parent. A dialect is free
  to bracket a flat sequence in any way, which covers every precedence and
  associativity of the two keywords.
\<close>

fun combine :: "logic \<Rightarrow> bool \<Rightarrow> bool \<Rightarrow> bool" where
  "combine AND x y = (x \<and> y)"
| "combine OR x y = (x \<or> y)"

inductive bracketing :: "bool \<Rightarrow> (logic \<times> bool) list \<Rightarrow> bool \<Rightarrow> bool" where
  operand: "bracketing v [] v"
| binary: "bracketing v ps x \<Longrightarrow> bracketing w qs y \<Longrightarrow>
           bracketing v (ps @ (k, w) # qs) (combine k x y)"

fun spliced :: "logic \<Rightarrow> (bool \<times> (logic \<times> bool) list) list \<Rightarrow> (bool \<times> (logic \<times> bool) list) option" where
  "spliced k [] = None"
| "spliced k [s] = Some s"
| "spliced k ((v, ps) # s # ss) =
     (case spliced k (s # ss) of
        None \<Rightarrow> None
      | Some (w, qs) \<Rightarrow> Some (v, ps @ (k, w) # qs))"

definition bracketed :: "(bool \<times> (logic \<times> bool) list) set \<Rightarrow> bool set" where
  "bracketed S = {x. \<exists>v ps. (v, ps) \<in> S \<and> bracketing v ps x}"

fun level :: "(string \<Rightarrow> bool) \<Rightarrow> fragment \<Rightarrow> (bool \<times> (logic \<times> bool) list) set" where
  "level env (Text s) = {(env s, [])}"
| "level env (Parenthesized f) = (\<lambda>x. (x, [])) ` bracketed (level env f)"
| "level env (Negated f) = (\<lambda>x. (\<not> x, [])) ` bracketed (level env f)"
| "level env (Joined k fs) =
     {s. \<exists>ss. list_all2 (\<lambda>f s. s \<in> level env f) fs ss \<and> spliced k ss = Some s}"

definition readings :: "(string \<Rightarrow> bool) \<Rightarrow> fragment \<Rightarrow> bool set" where
  "readings env f = bracketed (level env f)"

text \<open>The value that the tree means: every group is one unit.\<close>

fun meaning :: "(string \<Rightarrow> bool) \<Rightarrow> fragment \<Rightarrow> bool" where
  "meaning env (Text s) = env s"
| "meaning env (Joined AND fs) = list_all (meaning env) fs"
| "meaning env (Joined OR fs) = list_ex (meaning env) fs"
| "meaning env (Parenthesized f) = meaning env f"
| "meaning env (Negated f) = (\<not> meaning env f)"

text \<open>
  The shape that lowering keeps: an operand of a joined group is never a bare
  group, and no group is empty.
\<close>

fun operand_form :: "fragment \<Rightarrow> bool" where
  "operand_form (Joined k fs) = False"
| "operand_form f = True"

fun well_grouped :: "fragment \<Rightarrow> bool" where
  "well_grouped (Text s) = True"
| "well_grouped (Joined k fs) = (fs \<noteq> [] \<and> list_all operand_form fs \<and> list_all well_grouped fs)"
| "well_grouped (Parenthesized f) = well_grouped f"
| "well_grouped (Negated f) = well_grouped f"

text \<open>Choices for the examples: the usual spellings, and constant conditions for the empty groups.\<close>

fun example_comparison_text :: "operator \<Rightarrow> string" where
  "example_comparison_text Eq = ''=''"
| "example_comparison_text Ne = ''!=''"
| "example_comparison_text Gt = ''>''"
| "example_comparison_text Gte = ''>=''"
| "example_comparison_text Lt = ''<''"
| "example_comparison_text Lte = ''<=''"
| "example_comparison_text op = ''=''"

definition example_choices :: lowering_choices where
  "example_choices =
     \<lparr>comparison_text = example_comparison_text,
      empty_group = (\<lambda>k. case k of AND \<Rightarrow> ''1 = 1'' | OR \<Rightarrow> ''1 = 0''),
      malformed_operand = (\<lambda>op. ''malformed operand''),
      malformed_negation = ''NOT takes one condition''\<rparr>"

section \<open>The regular-expression matcher decides membership\<close>

lemma nullable_lang: "nullable r \<longleftrightarrow> [] \<in> lang r"
  by (induction r) (auto simp: conc_def intro: star.intros)

lemma star_split:
  assumes "w \<in> star A" and "w = c # v"
  shows "\<exists>u t. v = u @ t \<and> c # u \<in> A \<and> t \<in> star A"
  using assms
proof (induction arbitrary: v rule: star.induct)
  case star_empty
  then show ?case by simp
next
  case (star_more a w)
  show ?case
  proof (cases a)
    case Nil
    with star_more show ?thesis by simp
  next
    case (Cons x u)
    with star_more.prems have "x = c" and "v = u @ w" by simp_all
    with Cons star_more.hyps show ?thesis by blast
  qed
qed

lemma deriv_lang: "w \<in> lang (deriv c r) \<longleftrightarrow> c # w \<in> lang r"
proof (induction r arbitrary: w)
  case (Cat r s)
  show ?case
  proof
    assume "w \<in> lang (deriv c (Cat r s))"
    then consider (left) "w \<in> conc (lang (deriv c r)) (lang s)"
      | (right) "nullable r" "w \<in> lang (deriv c s)"
      by (auto split: if_splits)
    then show "c # w \<in> lang (Cat r s)"
    proof cases
      case left
      then obtain a b where "w = a @ b" "a \<in> lang (deriv c r)" "b \<in> lang s"
        by (auto simp: conc_def)
      then have "c # w = (c # a) @ b" "c # a \<in> lang r" "b \<in> lang s"
        using Cat.IH(1) by simp_all
      then show ?thesis unfolding lang.simps conc_def by blast
    next
      case right
      then have "[] \<in> lang r" "c # w \<in> lang s"
        using Cat.IH(2) by (simp_all add: nullable_lang)
      then have "c # w = [] @ (c # w) \<and> [] \<in> lang r \<and> c # w \<in> lang s" by simp
      then show ?thesis unfolding lang.simps conc_def by blast
    qed
  next
    assume "c # w \<in> lang (Cat r s)"
    then obtain a b where ab: "c # w = a @ b" "a \<in> lang r" "b \<in> lang s"
      by (auto simp: conc_def)
    show "w \<in> lang (deriv c (Cat r s))"
    proof (cases a)
      case Nil
      with ab have "nullable r" "w \<in> lang (deriv c s)"
        using Cat.IH(2) by (simp_all add: nullable_lang)
      then show ?thesis by simp
    next
      case (Cons x u)
      with ab have "w = u @ b" "u \<in> lang (deriv c r)"
        using Cat.IH(1) by simp_all
      with ab(3) have "w \<in> conc (lang (deriv c r)) (lang s)"
        unfolding conc_def by blast
      then show ?thesis by simp
    qed
  qed
next
  case (Star r)
  show ?case
  proof
    assume "w \<in> lang (deriv c (Star r))"
    then obtain a b where "w = a @ b" "a \<in> lang (deriv c r)" "b \<in> star (lang r)"
      by (auto simp: conc_def)
    then have "c # w = (c # a) @ b" "c # a \<in> lang r" "b \<in> star (lang r)"
      using Star.IH by simp_all
    then show "c # w \<in> lang (Star r)"
      using star_more [of "c # a" "lang r" b] by simp
  next
    assume "c # w \<in> lang (Star r)"
    then have "c # w \<in> star (lang r)" by simp
    from star_split [OF this refl]
    obtain u t where "w = u @ t" "c # u \<in> lang r" "t \<in> star (lang r)" by blast
    then have "w = u @ t \<and> u \<in> lang (deriv c r) \<and> t \<in> lang (Star r)"
      using Star.IH by simp
    then show "w \<in> lang (deriv c (Star r))"
      unfolding deriv.simps lang.simps conc_def by blast
  qed
qed (auto simp: conc_def)

lemma regex_test_lang: "regex_test r s \<longleftrightarrow> s \<in> lang r"
  unfolding regex_test_def
  by (induction s arbitrary: r) (simp_all add: nullable_lang deriv_lang)

section \<open>Identifiers: what the pattern accepts\<close>

lemma lang_name_start: "lang name_start = {[c] | c. start_char c}"
  by (auto simp: name_start_def in_bracket_def start_char_def is_letter_def)

lemma lang_name_char: "lang name_char = {[c] | c. word_char c}"
  by (auto simp: name_char_def in_bracket_def word_char_def is_letter_def is_digit_def)

lemma star_singletons: "star {[c] | c. P c} = {w. list_all P w}"
proof (intro set_eqI iffI)
  fix w assume "w \<in> star {[c] | c. P c}"
  then show "w \<in> {w. list_all P w}"
    by (induction rule: star.induct) auto
next
  fix w assume "w \<in> {w. list_all P w}"
  then have "list_all P w" by simp
  then show "w \<in> star {[c] | c. P c}"
  proof (induction w)
    case Nil
    show ?case by (rule star_empty)
  next
    case (Cons c w)
    then have "[c] \<in> {[c] | c. P c}" "w \<in> star {[c] | c. P c}" by simp_all
    from star_more [OF this] show ?case by simp
  qed
qed

lemma lang_token: "lang (Cat name_start (Star name_char)) = {t. token_ok t}"
proof -
  have "conc {[c] | c. start_char c} {w. list_all word_char w} = {t. token_ok t}"
  proof (intro set_eqI iffI)
    fix t assume "t \<in> conc {[c] | c. start_char c} {w. list_all word_char w}"
    then show "t \<in> {t. token_ok t}" by (auto simp: conc_def)
  next
    fix t assume "t \<in> {t. token_ok t}"
    then obtain c cs where "t = [c] @ cs" "start_char c" "list_all word_char cs"
      by (cases t) auto
    then show "t \<in> conc {[c] | c. start_char c} {w. list_all word_char w}"
      unfolding conc_def by blast
  qed
  then show ?thesis
    by (simp add: lang_name_start lang_name_char star_singletons)
qed

lemma start_char_word: "start_char c \<Longrightarrow> word_char c"
  by (auto simp: start_char_def word_char_def)

lemma dot_not_word: "\<not> word_char CHR ''.''"
  by (simp add: word_char_def is_letter_def is_digit_def)

lemma token_ok_no_dot: "token_ok t \<Longrightarrow> CHR ''.'' \<notin> set t"
  using dot_not_word start_char_word
  by (cases t) (auto simp: list_all_iff)

lemma split_not_Nil: "split d s \<noteq> []"
  by (induction s) (auto split: list.splits)

lemma split_no_sep: "d \<notin> set t \<Longrightarrow> split d t = [t]"
  by (induction t) auto

lemma split_at_sep: "d \<notin> set t \<Longrightarrow> split d (t @ d # r) = t # split d r"
  by (induction t) auto

lemma join_split: "join [d] (split d s) = s"
proof (induction s)
  case Nil
  show ?case by simp
next
  case (Cons c s)
  obtain t ts where ts: "split d s = t # ts"
    using split_not_Nil [of d s] by (cases "split d s") auto
  with Cons show ?case
    by (cases ts) auto
qed

lemma lang_dot: "lang (Bracket [Single CHR ''.'']) = {''.''}"
  by (auto simp: in_bracket_def)

lemma dotted_star:
  assumes "r \<in> star (conc {''.''} {t. token_ok t})"
  shows "\<exists>ts. list_all token_ok ts \<and> r = concat (map (\<lambda>t. CHR ''.'' # t) ts)"
  using assms
proof (induction rule: star.induct)
  case star_empty
  have "list_all token_ok [] \<and> [] = concat (map (\<lambda>t. CHR ''.'' # t) [])" by simp
  then show ?case by blast
next
  case (star_more a w)
  then obtain ts where ts: "list_all token_ok ts" "w = concat (map (\<lambda>t. CHR ''.'' # t) ts)"
    by blast
  from star_more.hyps(1) obtain t where t: "a = CHR ''.'' # t" "token_ok t"
    by (auto simp: conc_def)
  from t ts have "list_all token_ok (t # ts) \<and> a @ w = concat (map (\<lambda>t. CHR ''.'' # t) (t # ts))"
    by simp
  then show ?case by blast
qed

lemma star_dotted:
  "list_all token_ok ts \<Longrightarrow>
   concat (map (\<lambda>t. CHR ''.'' # t) ts) \<in> star (conc {''.''} {t. token_ok t})"
proof (induction ts)
  case Nil
  show ?case by (simp add: star_empty)
next
  case (Cons t ts)
  then have "CHR ''.'' # t \<in> conc {''.''} {t. token_ok t}"
    by (auto simp: conc_def)
  moreover from Cons have "concat (map (\<lambda>t. CHR ''.'' # t) ts) \<in> star (conc {''.''} {t. token_ok t})"
    by simp
  ultimately show ?case
    using star_more [of "CHR ''.'' # t" _ "concat (map (\<lambda>t. CHR ''.'' # t) ts)"] by simp
qed

lemma split_dotted:
  "list_all token_ok ts \<Longrightarrow> CHR ''.'' \<notin> set t \<Longrightarrow>
   split CHR ''.'' (t @ concat (map (\<lambda>u. CHR ''.'' # u) ts)) = t # ts"
proof (induction ts arbitrary: t)
  case Nil
  then show ?case by (simp add: split_no_sep)
next
  case (Cons u us)
  then have "split CHR ''.'' (u @ concat (map (\<lambda>u. CHR ''.'' # u) us)) = u # us"
    by (simp add: token_ok_no_dot)
  with Cons.prems(2) show ?case
    by (simp add: split_at_sep)
qed

lemma join_dotted: "join ''.'' (t # ts) = t @ concat (map (\<lambda>u. CHR ''.'' # u) ts)"
  by (induction ts arbitrary: t) simp_all

lemma identifier_regex_tokens:
  "regex_test identifier_regex s \<longleftrightarrow> list_all token_ok (split CHR ''.'' s)"
proof -
  have L: "lang identifier_regex = conc {t. token_ok t} (star (conc {''.''} {t. token_ok t}))"
    unfolding identifier_regex_def lang.simps(4) [of "Cat name_start (Star name_char)"]
      lang.simps(6) lang.simps(4) [of "Bracket [Single CHR ''.'']"] lang_token lang_dot ..
  show ?thesis
  proof
    assume "regex_test identifier_regex s"
    then have "s \<in> conc {t. token_ok t} (star (conc {''.''} {t. token_ok t}))"
      by (simp add: regex_test_lang L)
    then obtain t r where tr: "s = t @ r" "token_ok t" "r \<in> star (conc {''.''} {t. token_ok t})"
      by (auto simp: conc_def)
    from dotted_star [OF tr(3)] obtain ts
      where ts: "list_all token_ok ts" "r = concat (map (\<lambda>t. CHR ''.'' # t) ts)" by blast
    with tr have "split CHR ''.'' s = t # ts"
      by (simp add: split_dotted token_ok_no_dot)
    with tr ts show "list_all token_ok (split CHR ''.'' s)" by simp
  next
    assume ok: "list_all token_ok (split CHR ''.'' s)"
    obtain t ts where tts: "split CHR ''.'' s = t # ts"
      using split_not_Nil [of "CHR ''.''" s] by (cases "split CHR ''.'' s") auto
    have "s = join ''.'' (t # ts)"
      using join_split [of "CHR ''.''" s] tts by simp
    then have s: "s = t @ concat (map (\<lambda>u. CHR ''.'' # u) ts)"
      by (simp only: join_dotted)
    from ok tts have "token_ok t" "list_all token_ok ts" by simp_all
    with s star_dotted [of ts] have "s \<in> conc {t. token_ok t} (star (conc {''.''} {t. token_ok t}))"
      unfolding conc_def by blast
    then show "regex_test identifier_regex s"
      by (simp add: regex_test_lang L)
  qed
qed

lemma backtick_not_word: "\<not> word_char CHR 0x60"
  by (simp add: word_char_def is_letter_def is_digit_def)

lemma token_ok_word: "token_ok t \<Longrightarrow> c \<in> set t \<Longrightarrow> word_char c"
  by (cases t) (auto simp: list_all_iff start_char_word)

lemma double_backticks_id: "CHR 0x60 \<notin> set t \<Longrightarrow> double_backticks t = t"
  by (induction t) (auto simp: double_backticks_def)

lemma escape_token:
  assumes "token_ok t"
  shows "[CHR 0x60] @ double_backticks t @ [CHR 0x60] = backticked t"
proof -
  have "CHR 0x60 \<notin> set t"
    using token_ok_word [OF assms, of "CHR 0x60"] backtick_not_word by blast
  then show ?thesis
    by (simp add: backticked_def double_backticks_id)
qed

lemma escapeIdentifier_tokens:
  assumes "list_all token_ok (split CHR ''.'' s)"
  shows "escapeIdentifier s = join ''.'' (map backticked (split CHR ''.'' s))"
proof -
  have "map (\<lambda>part. [CHR 0x60] @ double_backticks part @ [CHR 0x60]) (split CHR ''.'' s)
        = map backticked (split CHR ''.'' s)"
    using assms by (intro map_cong refl escape_token) (simp add: list_all_iff)
  then show ?thesis
    unfolding escapeIdentifier_def by (rule arg_cong)
qed

lemma token_ok_iff:
  "token_ok t \<longleftrightarrow> \<not> (t = [] \<or> leading_digit t \<or> list_ex (\<lambda>c. \<not> word_char c) t)"
proof (cases t)
  case Nil
  then show ?thesis by simp
next
  case (Cons c cs)
  have "start_char c \<longleftrightarrow> word_char c \<and> \<not> is_digit c"
    by (auto simp: start_char_def word_char_def is_letter_def is_digit_def)
  with Cons show ?thesis
    by (auto simp: list_all_iff list_ex_iff)
qed

lemma sb_identifier_accepts:
  assumes "list_all token_ok (split CHR ''.'' s)"
  shows "sb_identifier (NameString s) = Inr (join ''.'' (map backticked (split CHR ''.'' s)))"
  using assms
  by (simp add: sb_identifier_def validateIdentifier_def escapeIdentifier_tokens identifier_regex_tokens)

lemma sb_identifier_rejects:
  assumes "\<not> list_all token_ok (split CHR ''.'' s)"
  shows "sb_identifier (NameString s) = Inl (SQLInjectionError (invalid_identifier_message s) (Some s))"
  using assms
  by (simp add: sb_identifier_def validateIdentifier_def identifier_regex_tokens)

lemma sb_identifier_token:
  assumes "token_ok t"
  shows "sb_identifier (NameString t) = Inr (backticked t)"
  using assms sb_identifier_accepts [of t]
  by (simp add: split_no_sep token_ok_no_dot)

lemmas char_eval = word_char_def start_char_def is_letter_def is_digit_def

text \<open>
  C1. A name whose dot-separated tokens all match \<^verbatim>\<open>[A-Za-z_][A-Za-z0-9_]*\<close> comes
  back with every token between backticks and the tokens joined by dots. A name
  with an empty segment, with a token that starts with a digit, or with a
  character outside the class in some token is rejected with
  \<^verbatim>\<open>SQLInjectionError\<close>, which carries the name.
\<close>

theorem identifier_quotes_or_rejects:
  "(list_all token_ok (split CHR ''.'' s) \<longrightarrow>
      sb_identifier (NameString s) = Inr (join ''.'' (map backticked (split CHR ''.'' s))))
   \<and> (list_ex (\<lambda>t. t = [] \<or> leading_digit t \<or> list_ex (\<lambda>c. \<not> word_char c) t) (split CHR ''.'' s) \<longrightarrow>
      sb_identifier (NameString s) = Inl (SQLInjectionError (invalid_identifier_message s) (Some s)))"
proof (intro conjI impI)
  assume "list_all token_ok (split CHR ''.'' s)"
  then show "sb_identifier (NameString s) = Inr (join ''.'' (map backticked (split CHR ''.'' s)))"
    by (rule sb_identifier_accepts)
next
  assume "list_ex (\<lambda>t. t = [] \<or> leading_digit t \<or> list_ex (\<lambda>c. \<not> word_char c) t) (split CHR ''.'' s)"
  then have "\<not> list_all token_ok (split CHR ''.'' s)"
    by (auto simp: list_all_iff list_ex_iff token_ok_iff)
  then show "sb_identifier (NameString s) = Inl (SQLInjectionError (invalid_identifier_message s) (Some s))"
    by (rule sb_identifier_rejects)
qed

theorem identifier_quotes_or_rejects_witness:
  "sb_identifier (NameString ''db.users'') = Inr ''`db`.`users`''
   \<and> sb_identifier (NameString ''users; DROP TABLE users--'')
       = Inl (SQLInjectionError (invalid_identifier_message ''users; DROP TABLE users--'')
                                (Some ''users; DROP TABLE users--''))"
  using identifier_quotes_or_rejects [of "''db.users''"]
        identifier_quotes_or_rejects [of "''users; DROP TABLE users--''"]
  by (simp add: char_eval backticked_def)

section \<open>Decimal numerals\<close>

lemma digit_value_digit: "d < 10 \<Longrightarrow> digit_value (digit d) = d"
proof -
  assume "d < 10"
  then have "d = 0 \<or> d = 1 \<or> d = 2 \<or> d = 3 \<or> d = 4 \<or> d = 5 \<or> d = 6 \<or> d = 7 \<or> d = 8 \<or> d = 9"
    by arith
  then show ?thesis
    by (auto simp: digit_def digit_value_def)
qed

lemma is_digit_digit: "d < 10 \<Longrightarrow> is_digit (digit d)"
proof -
  assume "d < 10"
  then have "d = 0 \<or> d = 1 \<or> d = 2 \<or> d = 3 \<or> d = 4 \<or> d = 5 \<or> d = 6 \<or> d = 7 \<or> d = 8 \<or> d = 9"
    by arith
  then show ?thesis
    by (auto simp: digit_def is_digit_def)
qed

lemma decimal_digits: "list_all is_digit (decimal n)"
proof (induction n rule: decimal.induct)
  case (1 n)
  show ?case
  proof (cases "n < 10")
    case True
    then show ?thesis by (simp add: decimal.simps [of n] is_digit_digit)
  next
    case False
    with 1 show ?thesis by (simp add: decimal.simps [of n] is_digit_digit)
  qed
qed

lemma decimal_value: "foldl (\<lambda>a c. 10 * a + digit_value c) 0 (decimal n) = n"
proof (induction n rule: decimal.induct)
  case (1 n)
  show ?case
  proof (cases "n < 10")
    case True
    then show ?thesis by (simp add: decimal.simps [of n] digit_value_digit)
  next
    case False
    with 1 show ?thesis by (simp add: decimal.simps [of n] digit_value_digit)
  qed
qed

lemma decimal_not_Nil: "decimal n \<noteq> []"
  by (subst decimal.simps) simp

lemma String_of_number_nat:
  assumes "n < 2 ^ 53"
  shows "String_of_number rt (Finite (of_nat n)) = decimal n"
proof -
  have "\<bar>(of_nat n :: rat)\<bar> < 2 ^ 53"
    using assms by (simp add: of_nat_less_numeral_power_cancel_iff)
  moreover have "of_int \<lfloor>(of_nat n :: rat)\<rfloor> = (of_nat n :: rat)" by simp
  ultimately show ?thesis
    by (simp add: String_of_number_def)
qed

lemma decimal_0: "decimal 0 = ''0''"
  by (simp add: decimal.simps digit_def)

lemma decimal_10: "decimal 10 = ''10''"
  by (simp add: decimal.simps digit_def)

lemma decimal_1: "decimal 1 = ''1''"
  by (simp add: decimal.simps digit_def)

lemma decimal_2: "decimal 2 = ''2''"
  by (simp add: decimal.simps digit_def)

lemma decimal_Suc_0: "decimal (Suc 0) = ''1''"
  by (simp add: decimal.simps digit_def)

lemma decimal_Suc_Suc_0: "decimal (Suc (Suc 0)) = ''2''"
  by (simp add: decimal.simps digit_def)

section \<open>Valid names\<close>

lemma sb_identifier_valid: "valid_name s \<Longrightarrow> sb_identifier (NameString s) = Inr (quoted s)"
  by (simp add: valid_name_def quoted_def sb_identifier_accepts)

lemma sb_identifier_invalid:
  "\<not> valid_name s \<Longrightarrow>
   sb_identifier (NameString s) = Inl (SQLInjectionError (invalid_identifier_message s) (Some s))"
  by (simp add: valid_name_def sb_identifier_rejects)

lemma sb_identifiers_valid: "list_all valid_name ns \<Longrightarrow> sb_identifiers ns = Inr (map quoted ns)"
  by (induction ns) (simp_all add: sb_identifier_valid)

lemma sb_identifiers_invalid:
  "find (\<lambda>n. \<not> valid_name n) ns = Some n \<Longrightarrow>
   sb_identifiers ns = Inl (SQLInjectionError (invalid_identifier_message n) (Some n))"
proof (induction ns)
  case Nil
  then show ?case by simp
next
  case (Cons m ms)
  show ?case
  proof (cases "valid_name m")
    case True
    with Cons show ?thesis by (simp add: sb_identifier_valid)
  next
    case False
    with Cons.prems have "n = m" by simp
    with False show ?thesis by (simp add: sb_identifier_invalid)
  qed
qed

lemmas name_eval = valid_name_def quoted_def backticked_def char_eval

section \<open>Searching the emitted text\<close>

lemma starts_with_append: "starts_with (n @ ys) n"
  by (induction n) simp_all

lemma starts_with_extend: "starts_with s n \<Longrightarrow> starts_with (s @ t) n"
  by (induction s n rule: starts_with.induct) simp_all

lemma includes_str_Nil: "includes_str s []"
  by (cases s) simp_all

lemma includes_str_extend: "includes_str s n \<Longrightarrow> includes_str (s @ t) n"
proof (induction s)
  case Nil
  then show ?case by (simp add: includes_str_Nil)
next
  case (Cons c cs)
  then show ?case
    using starts_with_extend [of "c # cs" n t] by auto
qed

lemma includes_str_prepend: "includes_str s n \<Longrightarrow> includes_str (p @ s) n"
proof (induction p)
  case Nil
  then show ?case by simp
next
  case (Cons c p)
  then show ?case by (cases "p @ s") auto
qed

lemma includes_str_self: "includes_str n n"
  using starts_with_append [of n "[]"] by (cases n) simp_all

lemma join_append:
  "xs \<noteq> [] \<Longrightarrow> ys \<noteq> [] \<Longrightarrow> join sep (xs @ ys) = join sep xs @ sep @ join sep ys"
  by (induction sep xs rule: join.induct) (auto simp: neq_Nil_conv)

lemma join_includes_part: "p \<in> set ps \<Longrightarrow> includes_str (join sep ps) p"
proof (induction sep ps rule: join.induct)
  case (1 sep)
  then show ?case by simp
next
  case (2 sep x)
  then show ?case by (simp add: includes_str_self)
next
  case (3 sep x y ys)
  show ?case
  proof (cases "p = x")
    case True
    then show ?thesis
      using includes_str_extend [OF includes_str_self, of x "sep @ join sep (y # ys)"] by simp
  next
    case False
    with 3 have "includes_str (join sep (y # ys)) p" by simp
    then have "includes_str ((x @ sep) @ join sep (y # ys)) p"
      by (rule includes_str_prepend)
    then show ?thesis by simp
  qed
qed

lemma join_append_includes:
  assumes "includes_str (join sep xs) n"
  shows "includes_str (join sep (xs @ ys)) n"
proof (cases "xs = [] \<or> ys = []")
  case True
  then show ?thesis
  proof
    assume "xs = []"
    with assms have "n = []" by simp
    then show ?thesis by (simp add: includes_str_Nil)
  next
    assume "ys = []"
    with assms show ?thesis by simp
  qed
next
  case False
  then have "join sep (xs @ ys) = join sep xs @ sep @ join sep ys"
    by (simp add: join_append)
  with assms show ?thesis by (simp add: includes_str_extend)
qed

section \<open>SELECT\<close>

text \<open>
  C7. \<^verbatim>\<open>select\<close> throws \<^verbatim>\<open>SQLInjectionError\<close> on the empty list and leaves the
  builder as it was. When the list contains \<^verbatim>\<open>*\<close> it appends \<^verbatim>\<open>SELECT\<close> and a bare
  \<^verbatim>\<open>*\<close>, whatever the other elements are: none of them is validated. Otherwise,
  when all the fields are valid names, it appends \<^verbatim>\<open>SELECT\<close> and the quoted names
  joined by a comma and a space, in order; and when one is not, it throws for the
  first such field, after \<^verbatim>\<open>SELECT\<close> has been pushed.
\<close>

theorem select_empty_star_or_identifiers:
  "(field_names = [] \<longrightarrow>
      sb_select field_names b = Inl (SQLInjectionError ''SELECT fields cannot be empty'' None, b))
   \<and> (''*'' \<in> set field_names \<longrightarrow>
      sb_select field_names b = Inr (b\<lparr>parts := parts b @ [''SELECT'', ''*'']\<rparr>))
   \<and> (field_names \<noteq> [] \<and> ''*'' \<notin> set field_names \<and> list_all valid_name field_names \<longrightarrow>
      sb_select field_names b
        = Inr (b\<lparr>parts := parts b @ [''SELECT'', join '', '' (map quoted field_names)]\<rparr>))
   \<and> (\<forall>n. ''*'' \<notin> set field_names \<and> find (\<lambda>n. \<not> valid_name n) field_names = Some n \<longrightarrow>
      sb_select field_names b
        = Inl (SQLInjectionError (invalid_identifier_message n) (Some n),
               b\<lparr>parts := parts b @ [''SELECT'']\<rparr>))"
proof (intro conjI impI allI)
  assume "field_names = []"
  then show "sb_select field_names b = Inl (SQLInjectionError ''SELECT fields cannot be empty'' None, b)"
    by (simp add: sb_select_def)
next
  assume "''*'' \<in> set field_names"
  moreover from this have "field_names \<noteq> []" by auto
  ultimately show "sb_select field_names b = Inr (b\<lparr>parts := parts b @ [''SELECT'', ''*'']\<rparr>)"
    by (simp add: sb_select_def push_def)
next
  assume "field_names \<noteq> [] \<and> ''*'' \<notin> set field_names \<and> list_all valid_name field_names"
  then show "sb_select field_names b
        = Inr (b\<lparr>parts := parts b @ [''SELECT'', join '', '' (map quoted field_names)]\<rparr>)"
    by (simp add: sb_select_def push_def sb_identifiers_valid)
next
  fix n
  assume a: "''*'' \<notin> set field_names \<and> find (\<lambda>n. \<not> valid_name n) field_names = Some n"
  then have "field_names \<noteq> []" by auto
  with a show "sb_select field_names b
        = Inl (SQLInjectionError (invalid_identifier_message n) (Some n),
               b\<lparr>parts := parts b @ [''SELECT'']\<rparr>)"
    by (simp add: sb_select_def push_def sb_identifiers_invalid)
qed

theorem select_empty_star_or_identifiers_witness:
  "sb_select [] new_SQLBuilder
     = Inl (SQLInjectionError ''SELECT fields cannot be empty'' None, new_SQLBuilder)
   \<and> sb_select [''id'', ''*'', ''not a name''] new_SQLBuilder
     = Inr \<lparr>parts = [''SELECT'', ''*''], parameters = [], paramCounter = 0\<rparr>
   \<and> sb_select [''id'', ''u.name''] new_SQLBuilder
     = Inr \<lparr>parts = [''SELECT'', ''`id`, `u`.`name`''], parameters = [], paramCounter = 0\<rparr>
   \<and> sb_select [''id'', ''1x''] new_SQLBuilder
     = Inl (SQLInjectionError (invalid_identifier_message ''1x'') (Some ''1x''),
            \<lparr>parts = [''SELECT''], parameters = [], paramCounter = 0\<rparr>)"
  using select_empty_star_or_identifiers [of "[]" new_SQLBuilder]
    select_empty_star_or_identifiers [of "[''id'', ''*'', ''not a name'']" new_SQLBuilder]
    select_empty_star_or_identifiers [of "[''id'', ''u.name'']" new_SQLBuilder]
    select_empty_star_or_identifiers [of "[''id'', ''1x'']" new_SQLBuilder]
  by (simp add: new_SQLBuilder_def name_eval)

section \<open>ORDER BY\<close>

lemma sb_orderBy_valid:
  assumes "valid_name field"
  shows "sb_orderBy field dir b
     = Inr (b\<lparr>parts := parts b @
              [if includes_str (sb_toSQL b) ''ORDER BY'' then '','' else ''ORDER BY'',
               quoted field,
               direction_text (case dir of None \<Rightarrow> ASC | Some d \<Rightarrow> d)]\<rparr>)"
  using assms
  by (simp add: sb_orderBy_def sb_toSQL_def push_identifier_def push_def sb_identifier_valid Let_def)

text \<open>
  C6, as amended. With a valid field name, \<^verbatim>\<open>orderBy\<close> appends
  \<^verbatim>\<open>ORDER BY\<close>, the quoted field and the direction (\<^verbatim>\<open>ASC\<close> when none is given) on
  a builder whose emitted text does not contain \<^verbatim>\<open>ORDER BY\<close>, and a comma, the
  quoted field and the direction on a builder whose text contains it. After a call
  that returned, the text contains \<^verbatim>\<open>ORDER BY\<close> whatever is appended next, so every
  later call on that builder appends the comma form.
\<close>

theorem orderBy_keyword_once_per_text:
  assumes "valid_name field"
  shows "(\<not> includes_str (sb_toSQL b) ''ORDER BY'' \<longrightarrow>
            sb_orderBy field dir b
              = Inr (b\<lparr>parts := parts b @ [''ORDER BY'', quoted field,
                        direction_text (case dir of None \<Rightarrow> ASC | Some d \<Rightarrow> d)]\<rparr>))
       \<and> (includes_str (sb_toSQL b) ''ORDER BY'' \<longrightarrow>
            sb_orderBy field dir b
              = Inr (b\<lparr>parts := parts b @ ['','', quoted field,
                        direction_text (case dir of None \<Rightarrow> ASC | Some d \<Rightarrow> d)]\<rparr>))
       \<and> (\<forall>b1 b2 more. sb_orderBy field dir b = Inr b1 \<and> parts b2 = parts b1 @ more \<longrightarrow>
            includes_str (sb_toSQL b2) ''ORDER BY'')"
proof (intro conjI impI allI)
  assume "\<not> includes_str (sb_toSQL b) ''ORDER BY''"
  then show "sb_orderBy field dir b
              = Inr (b\<lparr>parts := parts b @ [''ORDER BY'', quoted field,
                        direction_text (case dir of None \<Rightarrow> ASC | Some d \<Rightarrow> d)]\<rparr>)"
    by (simp add: sb_orderBy_valid [OF assms])
next
  assume "includes_str (sb_toSQL b) ''ORDER BY''"
  then show "sb_orderBy field dir b
              = Inr (b\<lparr>parts := parts b @ ['','', quoted field,
                        direction_text (case dir of None \<Rightarrow> ASC | Some d \<Rightarrow> d)]\<rparr>)"
    by (simp add: sb_orderBy_valid [OF assms])
next
  fix b1 b2 :: builder and more :: "string list"
  assume a: "sb_orderBy field dir b = Inr b1 \<and> parts b2 = parts b1 @ more"
  show "includes_str (sb_toSQL b2) ''ORDER BY''"
  proof (cases "includes_str (sb_toSQL b) ''ORDER BY''")
    case True
    with a have "parts b2 = parts b @ (['','', quoted field,
        direction_text (case dir of None \<Rightarrow> ASC | Some d \<Rightarrow> d)] @ more)"
      by (auto simp: sb_orderBy_valid [OF assms])
    with True show ?thesis
      by (simp only: sb_toSQL_def join_append_includes)
  next
    case False
    with a have "''ORDER BY'' \<in> set (parts b2)"
      by (auto simp: sb_orderBy_valid [OF assms])
    then show ?thesis
      unfolding sb_toSQL_def by (rule join_includes_part)
  qed
qed

theorem orderBy_keyword_once_per_text_witness:
  "sb_orderBy ''name'' (Some ASC) new_SQLBuilder
     = Inr \<lparr>parts = [''ORDER BY'', ''`name`'', ''ASC''], parameters = [], paramCounter = 0\<rparr>
   \<and> sb_orderBy ''age'' (Some DESC)
        \<lparr>parts = [''ORDER BY'', ''`name`'', ''ASC''], parameters = [], paramCounter = 0\<rparr>
     = Inr \<lparr>parts = [''ORDER BY'', ''`name`'', ''ASC'', '','', ''`age`'', ''DESC''],
            parameters = [], paramCounter = 0\<rparr>
   \<and> sb_toSQL \<lparr>parts = [''ORDER BY'', ''`name`'', ''ASC'', '','', ''`age`'', ''DESC''],
               parameters = [], paramCounter = 0\<rparr>
     = ''ORDER BY `name` ASC , `age` DESC''"
proof -
  have n: "valid_name ''name''" and a: "valid_name ''age''"
    by (simp_all add: name_eval)
  show ?thesis
    using orderBy_keyword_once_per_text [OF n, of new_SQLBuilder "Some ASC"]
      orderBy_keyword_once_per_text [OF a,
        of "\<lparr>parts = [''ORDER BY'', ''`name`'', ''ASC''], parameters = [], paramCounter = 0\<rparr>" "Some DESC"]
    by (simp add: new_SQLBuilder_def sb_toSQL_def name_eval)
qed

text \<open>
  The claim as first stated, that the first call appends the keyword on any builder,
  fails on a builder whose text has the two words already, here inside a condition.
\<close>

theorem orderBy_first_call_counterexample:
  "run [sb_where ''title = 'ORDER BY' '', sb_orderBy ''name'' (Some ASC)] new_SQLBuilder
     = Inr \<lparr>parts = [''WHERE'', ''title = 'ORDER BY' '', '','', ''`name`'', ''ASC''],
            parameters = [], paramCounter = 0\<rparr>
   \<and> sb_orderBy ''name'' (Some ASC)
        \<lparr>parts = [''WHERE'', ''title = 'ORDER BY' ''], parameters = [], paramCounter = 0\<rparr>
     \<noteq> Inr \<lparr>parts = [''WHERE'', ''title = 'ORDER BY' '', ''ORDER BY'', ''`name`'', ''ASC''],
              parameters = [], paramCounter = 0\<rparr>"
  by (simp add: sb_where_def sb_orderBy_def push_identifier_def push_def new_SQLBuilder_def
      sb_identifier_valid name_eval)

section \<open>LIMIT and OFFSET\<close>

text \<open>
  C8. \<^verbatim>\<open>limit\<close> and \<^verbatim>\<open>offset\<close> throw \<^verbatim>\<open>SQLInjectionError\<close> exactly when the count
  is less than zero, and leave the builder as it was. For every other count, zero
  included, they append the keyword and then \<^verbatim>\<open>String(count)\<close>, which for a
  natural number below 2^53 is its decimal numeral: digits only, denoting the number.
\<close>

theorem limit_offset_reject_negative_only:
  "(less_than_zero count \<longrightarrow>
       sb_limit rt count b = Inl (SQLInjectionError ''LIMIT must be non-negative'' None, b)
     \<and> sb_offset rt count b = Inl (SQLInjectionError ''OFFSET must be non-negative'' None, b))
   \<and> (\<not> less_than_zero count \<longrightarrow>
       sb_limit rt count b = Inr (b\<lparr>parts := parts b @ [''LIMIT'', String_of_number rt count]\<rparr>)
     \<and> sb_offset rt count b = Inr (b\<lparr>parts := parts b @ [''OFFSET'', String_of_number rt count]\<rparr>))
   \<and> (\<forall>n < 2 ^ 53. \<not> less_than_zero (Finite (of_nat n))
          \<and> String_of_number rt (Finite (of_nat n)) = decimal n
          \<and> list_all is_digit (decimal n)
          \<and> foldl (\<lambda>a c. 10 * a + digit_value c) 0 (decimal n) = n)"
proof (intro conjI allI impI)
  assume "less_than_zero count"
  then show "sb_limit rt count b = Inl (SQLInjectionError ''LIMIT must be non-negative'' None, b)"
    and "sb_offset rt count b = Inl (SQLInjectionError ''OFFSET must be non-negative'' None, b)"
    by (simp_all add: sb_limit_def sb_offset_def)
next
  assume "\<not> less_than_zero count"
  then show "sb_limit rt count b = Inr (b\<lparr>parts := parts b @ [''LIMIT'', String_of_number rt count]\<rparr>)"
    and "sb_offset rt count b = Inr (b\<lparr>parts := parts b @ [''OFFSET'', String_of_number rt count]\<rparr>)"
    by (simp_all add: sb_limit_def sb_offset_def push_def)
next
  fix n :: nat
  assume "n < 2 ^ 53"
  then show "String_of_number rt (Finite (of_nat n)) = decimal n"
    by (rule String_of_number_nat)
  show "\<not> less_than_zero (Finite (of_nat n))" by simp
  show "list_all is_digit (decimal n)" by (rule decimal_digits)
  show "foldl (\<lambda>a c. 10 * a + digit_value c) 0 (decimal n) = n" by (rule decimal_value)
qed

theorem limit_offset_reject_negative_only_witness:
  "sb_limit example_runtime (Finite (- 1)) new_SQLBuilder
     = Inl (SQLInjectionError ''LIMIT must be non-negative'' None, new_SQLBuilder)
   \<and> sb_offset example_runtime (Finite (- 1)) new_SQLBuilder
     = Inl (SQLInjectionError ''OFFSET must be non-negative'' None, new_SQLBuilder)
   \<and> sb_limit example_runtime (Finite 0) new_SQLBuilder
     = Inr \<lparr>parts = [''LIMIT'', ''0''], parameters = [], paramCounter = 0\<rparr>
   \<and> sb_offset example_runtime (Finite 10) new_SQLBuilder
     = Inr \<lparr>parts = [''OFFSET'', ''10''], parameters = [], paramCounter = 0\<rparr>"
proof -
  have z: "String_of_number example_runtime (Finite 0) = ''0''"
    using String_of_number_nat [of 0 example_runtime] by (simp add: decimal_0)
  have t: "String_of_number example_runtime (Finite 10) = ''10''"
    using String_of_number_nat [of 10 example_runtime] by (simp add: decimal_10)
  show ?thesis
    using limit_offset_reject_negative_only [of "Finite (- 1)" example_runtime new_SQLBuilder]
      limit_offset_reject_negative_only [of "Finite 0" example_runtime new_SQLBuilder]
      limit_offset_reject_negative_only [of "Finite 10" example_runtime new_SQLBuilder]
    by (simp add: new_SQLBuilder_def z t)
qed

section \<open>Parameters\<close>

lemma sb_param_cases:
  "(\<exists>e. paramValue rt v = Inl e \<and> sb_param rt v b = Inl (e, b))
   \<or> (\<exists>w. paramValue rt v = Inr w \<and> sb_param rt v b = param_returns b (inferClickHouseType w v) w)"
  by (cases "paramValue rt v") (simp_all add: sb_param_def param_returns_def)

lemma sb_param_Inr:
  assumes "sb_param rt v b = Inr (ph, b')"
  shows "\<exists>w. paramValue rt v = Inr w \<and> ph = placeholder (paramCounter b) (inferClickHouseType w v)
            \<and> b' = b\<lparr>parameters := parameters b @ [w], paramCounter := paramCounter b + 1\<rparr>"
  using assms sb_param_cases [of rt v b]
  by (auto simp: param_returns_def)

lemma sb_params_Inr:
  "sb_params rt vs b = Inr (phs, b') \<Longrightarrow>
   \<exists>ws. length ws = length vs \<and> length phs = length vs
     \<and> b' = b\<lparr>parameters := parameters b @ ws, paramCounter := paramCounter b + length vs\<rparr>
     \<and> (\<forall>k<length vs. paramValue rt (vs ! k) = Inr (ws ! k)
            \<and> phs ! k = placeholder (paramCounter b + k) (inferClickHouseType (ws ! k) (vs ! k)))"
proof (induction vs arbitrary: b phs b')
  case Nil
  then show ?case by simp
next
  case (Cons v vs)
  from Cons.prems obtain ph b1 phs1
    where p: "sb_param rt v b = Inr (ph, b1)"
      and r: "sb_params rt vs b1 = Inr (phs1, b')"
      and phs: "phs = ph # phs1"
    by (auto split: sum.splits prod.splits)
  from sb_param_Inr [OF p] obtain w
    where w: "paramValue rt v = Inr w"
      "ph = placeholder (paramCounter b) (inferClickHouseType w v)"
      "b1 = b\<lparr>parameters := parameters b @ [w], paramCounter := paramCounter b + 1\<rparr>"
    by blast
  from Cons.IH [OF r] obtain ws
    where ws: "length ws = length vs" "length phs1 = length vs"
      "b' = b1\<lparr>parameters := parameters b1 @ ws, paramCounter := paramCounter b1 + length vs\<rparr>"
      "\<forall>k<length vs. paramValue rt (vs ! k) = Inr (ws ! k)
            \<and> phs1 ! k = placeholder (paramCounter b1 + k) (inferClickHouseType (ws ! k) (vs ! k))"
    by blast
  have "length (w # ws) = length (v # vs)" "length phs = length (v # vs)"
    using ws phs by simp_all
  moreover have "b' = b\<lparr>parameters := parameters b @ (w # ws),
                         paramCounter := paramCounter b + length (v # vs)\<rparr>"
    using ws(3) w(3) by simp
  moreover have "\<forall>k<length (v # vs). paramValue rt ((v # vs) ! k) = Inr ((w # ws) ! k)
      \<and> phs ! k = placeholder (paramCounter b + k) (inferClickHouseType ((w # ws) ! k) ((v # vs) ! k))"
  proof (intro allI impI)
    fix k assume k: "k < length (v # vs)"
    show "paramValue rt ((v # vs) ! k) = Inr ((w # ws) ! k)
      \<and> phs ! k = placeholder (paramCounter b + k) (inferClickHouseType ((w # ws) ! k) ((v # vs) ! k))"
    proof (cases k)
      case 0
      with w phs show ?thesis by simp
    next
      case (Suc j)
      with k have "j < length vs" by simp
      with ws(4) w(3) Suc phs show ?thesis by simp
    qed
  qed
  ultimately show ?case by blast
qed

lemmas param_eval = sb_param_def paramValue_def inferClickHouseType_def placeholder_def
  decimal_0 decimal_1 decimal_2 decimal_Suc_0 new_SQLBuilder_def example_runtime_def

text \<open>
  C3, as amended. \<^verbatim>\<open>param\<close> stores the wire value and returns the placeholder
  with the tag of the table. A date gives the floor of its milliseconds over 1000
  (\<^verbatim>\<open>NaN\<close> for an invalid date) and \<^verbatim>\<open>DateTime\<close>; a boolean gives 1 or 0 and
  \<^verbatim>\<open>UInt8\<close>. For an object that is not null, an array or a date, the outcome is that
  of \<^verbatim>\<open>JSON.stringify\<close>: when it returns a text, that text is stored with
  \<^verbatim>\<open>String\<close>; when it returns \<^verbatim>\<open>undefined\<close>, \<^verbatim>\<open>undefined\<close> is stored with
  \<^verbatim>\<open>Nullable(String)\<close>; when it throws, \<^verbatim>\<open>param\<close> throws the same error and the
  builder is as it was. \<^verbatim>\<open>null\<close> and \<^verbatim>\<open>undefined\<close> stay and get
  \<^verbatim>\<open>Nullable(String)\<close>; a number stays and gets \<^verbatim>\<open>Int32\<close> when it is an integer and
  \<^verbatim>\<open>Float64\<close> otherwise; a bigint gets \<^verbatim>\<open>Int64\<close>, a string \<^verbatim>\<open>String\<close>, an array
  \<^verbatim>\<open>Array(String)\<close>. For a boolean or a date as original value the tag is the same
  whatever the wire value is, while the wire value 1 of a number gets \<^verbatim>\<open>Int32\<close>.
\<close>

theorem param_type_table:
  "sb_param rt (VDate (Some ms)) b
     = param_returns b ''DateTime'' (VNumber (Finite (of_int \<lfloor>(of_int ms :: rat) / 1000\<rfloor>)))
   \<and> sb_param rt (VDate None) b = param_returns b ''DateTime'' (VNumber NaN)
   \<and> sb_param rt (VBoolean x) b = param_returns b ''UInt8'' (VNumber (Finite (if x then 1 else 0)))
   \<and> sb_param rt (VObject ps) b
       = (case JSON_stringify rt (VObject ps) of
            Inr (Some text) \<Rightarrow> param_returns b ''String'' (VString text)
          | Inr None \<Rightarrow> param_returns b ''Nullable(String)'' VUndefined
          | Inl e \<Rightarrow> Inl (e, b))
   \<and> sb_param rt VNull b = param_returns b ''Nullable(String)'' VNull
   \<and> sb_param rt VUndefined b = param_returns b ''Nullable(String)'' VUndefined
   \<and> sb_param rt (VNumber n) b
       = param_returns b (if isInteger (VNumber n) then ''Int32'' else ''Float64'') (VNumber n)
   \<and> sb_param rt (VBigInt i) b = param_returns b ''Int64'' (VBigInt i)
   \<and> sb_param rt (VString s) b = param_returns b ''String'' (VString s)
   \<and> sb_param rt (VArray xs) b = param_returns b ''Array(String)'' (VArray xs)
   \<and> inferClickHouseType wire (VBoolean x) = ''UInt8''
   \<and> inferClickHouseType wire (VDate t) = ''DateTime''
   \<and> inferClickHouseType (VNumber (Finite 1)) (VNumber (Finite 1)) = ''Int32''"
proof -
  have d: "\<lfloor>(of_int ms :: rat) / 1000\<rfloor> = ms div 1000"
    using floor_divide_of_int_eq [of ms 1000, where ?'a = rat] by simp
  have object: "sb_param rt (VObject ps) b
       = (case JSON_stringify rt (VObject ps) of
            Inr (Some text) \<Rightarrow> param_returns b ''String'' (VString text)
          | Inr None \<Rightarrow> param_returns b ''Nullable(String)'' VUndefined
          | Inl e \<Rightarrow> Inl (e, b))"
  proof (cases "JSON_stringify rt (VObject ps)")
    case (Inl e)
    then show ?thesis
      by (simp add: sb_param_def paramValue_def)
  next
    case (Inr r)
    then show ?thesis
      by (cases r) (simp_all add: sb_param_def param_returns_def paramValue_def inferClickHouseType_def)
  qed
  show ?thesis
    unfolding d
    using object
    by (simp add: sb_param_def param_returns_def paramValue_def inferClickHouseType_def)
qed

theorem param_type_table_witness:
  "sb_param example_runtime (VBoolean True) new_SQLBuilder
     = Inr (''{param0:UInt8}'', \<lparr>parts = [], parameters = [VNumber (Finite 1)], paramCounter = 1\<rparr>)
   \<and> sb_param example_runtime (VNumber (Finite 3)) new_SQLBuilder
     = Inr (''{param0:Int32}'', \<lparr>parts = [], parameters = [VNumber (Finite 3)], paramCounter = 1\<rparr>)
   \<and> sb_param example_runtime (VNumber (Finite (314 / 100))) new_SQLBuilder
     = Inr (''{param0:Float64}'', \<lparr>parts = [], parameters = [VNumber (Finite (314 / 100))], paramCounter = 1\<rparr>)
   \<and> sb_param example_runtime VNull new_SQLBuilder
     = Inr (''{param0:Nullable(String)}'', \<lparr>parts = [], parameters = [VNull], paramCounter = 1\<rparr>)
   \<and> sb_param example_runtime (VDate (Some 1700000000123)) new_SQLBuilder
     = Inr (''{param0:DateTime}'', \<lparr>parts = [], parameters = [VNumber (Finite 1700000000)], paramCounter = 1\<rparr>)
   \<and> sb_param example_runtime (VDate (Some (- 1))) new_SQLBuilder
     = Inr (''{param0:DateTime}'', \<lparr>parts = [], parameters = [VNumber (Finite (- 1))], paramCounter = 1\<rparr>)
   \<and> sb_param example_runtime (VObject []) new_SQLBuilder
     = Inr (''{param0:String}'', \<lparr>parts = [], parameters = [VString ''{}''], paramCounter = 1\<rparr>)
   \<and> sb_param example_runtime (VObject [(''toJSON'', VFunction)]) new_SQLBuilder
     = Inr (''{param0:Nullable(String)}'', \<lparr>parts = [], parameters = [VUndefined], paramCounter = 1\<rparr>)
   \<and> sb_param example_runtime (VObject [(''big'', VBigInt 10)]) new_SQLBuilder
     = Inl (TypeError, new_SQLBuilder)"
proof -
  have f1: "\<lfloor>(1700000000123 :: rat) / 1000\<rfloor> = 1700000000"
    by (simp add: floor_eq_iff)
  have f2: "\<lfloor>- (1 / 1000) :: rat\<rfloor> = - 1"
    by (simp add: floor_eq_iff)
  have j: "JSON_stringify example_runtime (VObject []) = Inr (Some ''{}'')"
    "JSON_stringify example_runtime (VObject [(''toJSON'', VFunction)]) = Inr None"
    "JSON_stringify example_runtime (VObject [(''big'', VBigInt 10)]) = Inl TypeError"
    by (simp_all add: example_runtime_def)
  have i3: "isInteger (VNumber (Finite 3))" by simp
  have "\<lfloor>(157 / 50 :: rat)\<rfloor> = 3"
    by (simp add: floor_eq_iff)
  then have i314: "\<not> isInteger (VNumber (Finite (314 / 100)))"
    by simp
  show ?thesis
    using param_type_table [where rt = example_runtime and b = new_SQLBuilder and x = True
        and ms = 1700000000123 and n = "Finite 3" and ps = "[]"]
      param_type_table [where rt = example_runtime and b = new_SQLBuilder
        and ms = "- 1" and n = "Finite (314 / 100)" and ps = "[(''toJSON'', VFunction)]"]
      param_type_table [where rt = example_runtime and b = new_SQLBuilder
        and ps = "[(''big'', VBigInt 10)]"]
      j i3 i314
    by (simp add: param_returns_def placeholder_def decimal_0 new_SQLBuilder_def f1 f2)
qed

text \<open>
  The claim as first stated, that every such object is stored as its JSON text, fails
  for an object that \<^verbatim>\<open>JSON.stringify\<close> cannot serialise, here \<^verbatim>\<open>{big: 10n}\<close>:
  \<^verbatim>\<open>param\<close> throws the \<^verbatim>\<open>TypeError\<close> and stores nothing.
\<close>

theorem param_object_not_serialised_counterexample:
  "sb_param example_runtime (VObject [(''big'', VBigInt 10)]) new_SQLBuilder
     = Inl (TypeError, new_SQLBuilder)"
  by (simp add: sb_param_def paramValue_def example_runtime_def)

section \<open>The counter and the parameter list\<close>

lemma advances_refl: "advances b b"
  by (simp add: advances_def)

lemma advances_trans: "advances a b \<Longrightarrow> advances b c \<Longrightarrow> advances a c"
  by (auto simp: advances_def)

lemma advances_push: "advances b (push s b)"
  by (simp add: advances_def push_def)

lemma advances_push': "advances a b \<Longrightarrow> advances a (push s b)"
  by (simp add: advances_def push_def)

lemma advances_param: "advances b (outcome_state (sb_param rt v b))"
  using sb_param_cases [of rt v b]
  by (auto simp: outcome_state_def param_returns_def advances_def)

lemma advances_params: "advances b (outcome_state (sb_params rt vs b))"
proof (induction vs arbitrary: b)
  case Nil
  show ?case by (simp add: outcome_state_def advances_refl)
next
  case (Cons v vs)
  show ?case
  proof (cases "sb_param rt v b")
    case (Inl eb)
    with advances_param [of b rt v] show ?thesis
      by (simp add: outcome_state_def)
  next
    case (Inr r)
    obtain ph b1 where r: "r = (ph, b1)" by (cases r)
    with Inr advances_param [of b rt v] have 1: "advances b b1"
      by (simp add: outcome_state_def)
    have "outcome_state (sb_params rt (v # vs) b) = outcome_state (sb_params rt vs b1)"
      using Inr r by (auto simp: outcome_state_def split: sum.splits prod.splits)
    with Cons [of b1] 1 show ?thesis
      by (auto intro: advances_trans)
  qed
qed

lemma advances_valueSets: "advances b (outcome_state (valueSets rt rows b))"
proof (induction rows arbitrary: b)
  case Nil
  show ?case by (simp add: outcome_state_def advances_refl)
next
  case (Cons row rows)
  show ?case
  proof (cases "sb_params rt row b")
    case (Inl eb)
    with advances_params [of b rt row] show ?thesis
      by (simp add: outcome_state_def)
  next
    case (Inr r)
    obtain phs b1 where r: "r = (phs, b1)" by (cases r)
    with Inr advances_params [of b rt row] have 1: "advances b b1"
      by (simp add: outcome_state_def)
    have "outcome_state (valueSets rt (row # rows) b) = outcome_state (valueSets rt rows b1)"
      using Inr r by (auto simp: outcome_state_def split: sum.splits prod.splits)
    with Cons [of b1] 1 show ?thesis
      by (auto intro: advances_trans)
  qed
qed

lemma advances_assignments: "advances b (outcome_state (assignments rt entries b))"
proof (induction entries arbitrary: b)
  case Nil
  show ?case by (simp add: outcome_state_def advances_refl)
next
  case (Cons entry entries)
  obtain key v where entry: "entry = (key, v)" by (cases entry)
  show ?case
  proof (cases "sb_identifier (NameString key)")
    case (Inl e)
    with entry show ?thesis by (simp add: outcome_state_def advances_refl)
  next
    case q: (Inr q)
    show ?thesis
    proof (cases "sb_param rt v b")
      case (Inl eb)
      with q entry advances_param [of b rt v] show ?thesis
        by (simp add: outcome_state_def)
    next
      case (Inr r)
      obtain ph b1 where r: "r = (ph, b1)" by (cases r)
      with Inr advances_param [of b rt v] have 1: "advances b b1"
        by (simp add: outcome_state_def)
      have "outcome_state (assignments rt (entry # entries) b) = outcome_state (assignments rt entries b1)"
        using Inr r q entry by (auto simp: outcome_state_def split: sum.splits prod.splits)
      with Cons [of b1] 1 show ?thesis
        by (auto intro: advances_trans)
    qed
  qed
qed

lemma advances_run:
  assumes "\<And>f b. f \<in> set fs \<Longrightarrow> advances b (step_state (f b))"
  shows "advances b (step_state (run fs b))"
  using assms
proof (induction fs arbitrary: b)
  case Nil
  show ?case by (simp add: step_state_def advances_refl)
next
  case (Cons f fs)
  have f: "advances b (step_state (f b))" using Cons.prems by simp
  show ?case
  proof (cases "f b")
    case (Inl eb)
    with f show ?thesis by simp
  next
    case (Inr b1)
    with f have "advances b b1" by (simp add: step_state_def)
    moreover have "advances b1 (step_state (run fs b1))"
      using Cons.IH Cons.prems by simp
    ultimately show ?thesis
      using Inr by (auto intro: advances_trans)
  qed
qed

lemma advances_push_step: "advances b (step_state (Inr (push s b)))"
  by (simp add: step_state_def advances_push)

lemma advances_push_identifier: "advances b (step_state (push_identifier n b))"
  by (cases "sb_identifier (NameString n)")
     (simp_all add: push_identifier_def step_state_def advances_refl advances_push)

lemma advances_push_alias: "advances b (step_state (push_alias alias b))"
proof (cases "alias")
  case None
  then show ?thesis by (simp add: push_alias_def step_state_def advances_refl)
next
  case (Some a)
  show ?thesis
  proof (cases "a = []")
    case True
    with Some show ?thesis by (simp add: push_alias_def step_state_def advances_refl)
  next
    case False
    have "advances b (step_state (run [\<lambda>b. Inr (push ''AS'' b), push_identifier a] b))"
      by (rule advances_run) (auto simp: advances_push_step advances_push_identifier)
    with Some False show ?thesis by (simp add: push_alias_def)
  qed
qed

lemma advances_identifiers_push:
  "advances b (step_state (case sb_identifiers ns of Inl e \<Rightarrow> Inl (e, b) | Inr qs \<Rightarrow> Inr (push (f qs) b)))"
  by (cases "sb_identifiers ns") (simp_all add: step_state_def advances_refl advances_push)

lemma advances_state_after:
  assumes "c \<noteq> CallReset"
  shows "advances b (state_after rt c b)"
proof (cases c)
  case (CallRaw s)
  then show ?thesis by (simp add: sb_raw_def advances_push_step)
next
  case (CallParam v)
  then show ?thesis by (simp add: advances_param)
next
  case (CallParams vs)
  then show ?thesis by (simp add: advances_params)
next
  case (CallSelect fs)
  have "advances b (step_state (sb_select fs b))"
  proof (cases "sb_identifiers fs")
    case (Inl e)
    then show ?thesis
      by (simp add: sb_select_def step_state_def advances_refl advances_push advances_push' Let_def)
  next
    case (Inr qs)
    then show ?thesis
      by (simp add: sb_select_def step_state_def advances_refl advances_push advances_push' Let_def)
  qed
  with CallSelect show ?thesis by simp
next
  case (CallFrom table al)
  have "advances b (step_state (sb_from table al b))"
    unfolding sb_from_def
    by (rule advances_run) (auto simp: advances_push_step advances_push_identifier advances_push_alias)
  with CallFrom show ?thesis by simp
next
  case (CallWhere x)
  then show ?thesis by (simp add: sb_where_def step_state_def advances_push advances_push')
next
  case (CallAnd x)
  then show ?thesis by (simp add: sb_and_def step_state_def advances_push advances_push')
next
  case (CallOr x)
  then show ?thesis by (simp add: sb_or_def step_state_def advances_push advances_push')
next
  case (CallOrderBy field dir)
  have "advances b (step_state (run [\<lambda>b. Inr (push kw b), push_identifier field,
                                       \<lambda>b. Inr (push d b)] b))" for kw d
    by (rule advances_run) (auto simp: advances_push_step advances_push_identifier)
  then have "advances b (step_state (sb_orderBy field dir b))"
    unfolding sb_orderBy_def Let_def
    by (cases "includes_str (join '' '' (parts b)) ''ORDER BY''") (simp_all only: if_True if_False)
  with CallOrderBy show ?thesis by simp
next
  case (CallGroupBy fs)
  have "advances b (step_state (sb_groupBy fs b))"
    by (cases "sb_identifiers fs")
       (simp_all add: sb_groupBy_def step_state_def advances_push advances_push' Let_def)
  with CallGroupBy show ?thesis by simp
next
  case (CallLimit n)
  then show ?thesis
    by (simp add: sb_limit_def step_state_def advances_refl advances_push advances_push')
next
  case (CallOffset n)
  then show ?thesis
    by (simp add: sb_offset_def step_state_def advances_refl advances_push advances_push')
next
  case (CallJoin jt table cond al)
  have on_step: "advances b (step_state (case cond of None \<Rightarrow> Inr b
      | Some c \<Rightarrow> if c \<noteq> [] \<and> jt \<noteq> CROSS then Inr (push c (push ''ON'' b)) else Inr b))" for b
    by (simp add: step_state_def advances_refl advances_push advances_push' split: option.splits)
  have "advances b (step_state (sb_join jt table cond al b))"
    unfolding sb_join_def
    by (rule advances_run)
       (auto simp: advances_push_step advances_push_identifier advances_push_alias on_step)
  with CallJoin show ?thesis by simp
next
  case (CallInsertInto table fs)
  have "advances b (step_state (sb_insertInto table fs b))"
    unfolding sb_insertInto_def
    by (rule advances_run)
       (auto simp: advances_push_step advances_push_identifier advances_identifiers_push)
  with CallInsertInto show ?thesis by simp
next
  case (CallValues rows)
  have 1: "advances b (push ''VALUES'' b)" by (rule advances_push)
  have 2: "advances (push ''VALUES'' b) (outcome_state (valueSets rt rows (push ''VALUES'' b)))"
    by (rule advances_valueSets)
  have "advances (push ''VALUES'' b) (step_state (sb_values rt rows b))"
    using 2 by (auto simp: sb_values_def step_state_def outcome_state_def advances_push'
        split: sum.splits prod.splits)
  with 1 CallValues show ?thesis by (auto intro: advances_trans)
next
  case (CallUpdate table)
  have "advances b (step_state (sb_update table b))"
    unfolding sb_update_def
    by (rule advances_run) (auto simp: advances_push_step advances_push_identifier)
  with CallUpdate show ?thesis by simp
next
  case (CallSet updates)
  have 1: "advances b (push ''SET'' b)" by (rule advances_push)
  have 2: "advances (push ''SET'' b) (outcome_state (assignments rt updates (push ''SET'' b)))"
    by (rule advances_assignments)
  have "advances (push ''SET'' b) (step_state (sb_set rt updates b))"
    using 2 by (auto simp: sb_set_def step_state_def outcome_state_def advances_push'
        split: sum.splits prod.splits)
  with 1 CallSet show ?thesis by (auto intro: advances_trans)
next
  case (CallDeleteFrom table)
  have "advances b (step_state (sb_deleteFrom table b))"
    unfolding sb_deleteFrom_def
    by (rule advances_run) (auto simp: advances_push_step advances_push_identifier)
  with CallDeleteFrom show ?thesis by simp
next
  case CallReset
  with assms show ?thesis by simp
qed (simp_all add: advances_refl)

lemma aligned_state_after:
  assumes "paramCounter b = length (parameters b)"
  shows "paramCounter (state_after rt c b) = length (parameters (state_after rt c b))"
proof (cases "c = CallReset")
  case True
  then show ?thesis by (simp add: sb_reset_def step_state_def)
next
  case False
  from advances_state_after [OF this, of b rt] assms show ?thesis
    by (auto simp: advances_def)
qed

lemma aligned_calls:
  "paramCounter (foldl (\<lambda>b c. state_after rt c b) new_SQLBuilder cs)
     = length (parameters (foldl (\<lambda>b c. state_after rt c b) new_SQLBuilder cs))"
proof (induction cs rule: rev_induct)
  case Nil
  show ?case by (simp add: new_SQLBuilder_def)
next
  case (snoc c cs)
  then show ?case by (simp add: aligned_state_after)
qed

lemma sb_reset_new: "sb_reset b = Inr new_SQLBuilder"
  by (simp add: sb_reset_def new_SQLBuilder_def)

text \<open>
  C2. On a new builder, or one just reset, a run of \<^verbatim>\<open>param\<close> calls that all
  return gives as many placeholders as values; placeholder \<open>k\<close> has number \<open>k\<close> and the
  tag of the value stored at position \<open>k\<close> of \<^verbatim>\<open>getParams()\<close>, which is the wire value
  of the \<open>k\<close>-th argument, and the counter ends at the number of calls. No call
  other than \<^verbatim>\<open>reset\<close> lowers the counter, whether it returns or throws. After any
  sequence of calls on a new builder, the next \<^verbatim>\<open>param\<close> call numbers its
  placeholder with the position at which it stores its value.
\<close>

theorem placeholders_align_with_parameters:
  "(\<forall>b0 phs b'. (b0 = new_SQLBuilder \<or> sb_reset b = Inr b0) \<and> sb_params rt vs b0 = Inr (phs, b') \<longrightarrow>
      length phs = length vs \<and> length (sb_getParams b') = length vs \<and> paramCounter b' = length vs
      \<and> (\<forall>k<length vs. paramValue rt (vs ! k) = Inr (sb_getParams b' ! k)
             \<and> phs ! k = placeholder k (inferClickHouseType (sb_getParams b' ! k) (vs ! k))))
   \<and> (c \<noteq> CallReset \<longrightarrow> paramCounter b \<le> paramCounter (state_after rt c b))
   \<and> (\<forall>ph b'. sb_param rt v (foldl (\<lambda>b c. state_after rt c b) new_SQLBuilder cs) = Inr (ph, b') \<longrightarrow>
        (\<exists>tag. ph = placeholder (length (sb_getParams (foldl (\<lambda>b c. state_after rt c b) new_SQLBuilder cs))) tag)
        \<and> paramValue rt v
            = Inr (sb_getParams b' ! length (sb_getParams (foldl (\<lambda>b c. state_after rt c b) new_SQLBuilder cs))))"
proof (intro conjI allI impI)
  fix b0 phs b'
  assume a: "(b0 = new_SQLBuilder \<or> sb_reset b = Inr b0) \<and> sb_params rt vs b0 = Inr (phs, b')"
  then have b0: "b0 = new_SQLBuilder" by (auto simp: sb_reset_new)
  from a sb_params_Inr [of rt vs b0 phs b'] obtain ws
    where ws: "length ws = length vs" "length phs = length vs"
      "b' = b0\<lparr>parameters := parameters b0 @ ws, paramCounter := paramCounter b0 + length vs\<rparr>"
      "\<forall>k<length vs. paramValue rt (vs ! k) = Inr (ws ! k)
            \<and> phs ! k = placeholder (paramCounter b0 + k) (inferClickHouseType (ws ! k) (vs ! k))"
    by blast
  from ws(3) b0 have g: "sb_getParams b' = ws" "paramCounter b' = length vs"
    by (simp_all add: sb_getParams_def new_SQLBuilder_def)
  show "length phs = length vs" by (rule ws(2))
  show "length (sb_getParams b') = length vs" using g ws(1) by simp
  show "paramCounter b' = length vs" by (rule g(2))
  show "\<And>k. k < length vs \<Longrightarrow> paramValue rt (vs ! k) = Inr (sb_getParams b' ! k)"
    using ws(4) g(1) by simp
  show "\<And>k. k < length vs \<Longrightarrow>
      phs ! k = placeholder k (inferClickHouseType (sb_getParams b' ! k) (vs ! k))"
    using ws(4) g(1) b0 by (simp add: new_SQLBuilder_def)
next
  assume "c \<noteq> CallReset"
  from advances_state_after [OF this, of b rt]
  show "paramCounter b \<le> paramCounter (state_after rt c b)"
    by (simp add: advances_def)
next
  fix ph b'
  let ?b = "foldl (\<lambda>b c. state_after rt c b) new_SQLBuilder cs"
  assume p: "sb_param rt v ?b = Inr (ph, b')"
  from sb_param_Inr [OF p] obtain w
    where w: "paramValue rt v = Inr w"
      "ph = placeholder (paramCounter ?b) (inferClickHouseType w v)"
      "b' = ?b\<lparr>parameters := parameters ?b @ [w], paramCounter := paramCounter ?b + 1\<rparr>"
    by blast
  have al: "paramCounter ?b = length (parameters ?b)" by (rule aligned_calls)
  from w(2) al show "\<exists>tag. ph = placeholder (length (sb_getParams ?b)) tag"
    by (auto simp: sb_getParams_def)
  from w(1) w(3) show "paramValue rt v = Inr (sb_getParams b' ! length (sb_getParams ?b))"
    by (simp add: sb_getParams_def)
qed

theorem placeholders_align_with_parameters_witness:
  "sb_params example_runtime [VString ''first'', VBoolean True] new_SQLBuilder
     = Inr ([''{param0:String}'', ''{param1:UInt8}''],
            \<lparr>parts = [], parameters = [VString ''first'', VNumber (Finite 1)], paramCounter = 2\<rparr>)
   \<and> paramValue example_runtime (VBoolean True) = Inr (VNumber (Finite 1))
   \<and> ''{param1:UInt8}'' = placeholder 1 (inferClickHouseType (VNumber (Finite 1)) (VBoolean True))
   \<and> CallParam VNull \<noteq> CallReset
   \<and> paramCounter new_SQLBuilder \<le> paramCounter (state_after example_runtime (CallParam VNull) new_SQLBuilder)
   \<and> sb_param example_runtime (VString ''x'')
        (foldl (\<lambda>b c. state_after example_runtime c b) new_SQLBuilder
           [CallSelect [''*''], CallParam (VNumber (Finite 7))])
     = Inr (''{param1:String}'',
            \<lparr>parts = [''SELECT'', ''*''], parameters = [VNumber (Finite 7), VString ''x''], paramCounter = 2\<rparr>)
   \<and> paramValue example_runtime (VString ''x'') = Inr ([VNumber (Finite 7), VString ''x''] ! 1)"
proof -
  let ?b' = "\<lparr>parts = [], parameters = [VString ''first'', VNumber (Finite 1)], paramCounter = 2\<rparr>"
  let ?cs = "[CallSelect [''*''], CallParam (VNumber (Finite 7))]"
  let ?b'' = "\<lparr>parts = [''SELECT'', ''*''], parameters = [VNumber (Finite 7), VString ''x''], paramCounter = 2\<rparr>"
  have h1: "sb_params example_runtime [VString ''first'', VBoolean True] new_SQLBuilder
     = Inr ([''{param0:String}'', ''{param1:UInt8}''], ?b')"
    by (simp add: param_eval)
  have st: "foldl (\<lambda>b c. state_after example_runtime c b) new_SQLBuilder ?cs
     = \<lparr>parts = [''SELECT'', ''*''], parameters = [VNumber (Finite 7)], paramCounter = 1\<rparr>"
    by (simp add: param_eval sb_select_def push_def step_state_def outcome_state_def)
  have h3: "sb_param example_runtime (VString ''x'')
        (foldl (\<lambda>b c. state_after example_runtime c b) new_SQLBuilder ?cs) = Inr (''{param1:String}'', ?b'')"
    unfolding st by (simp add: param_eval)
  note t = placeholders_align_with_parameters
     [where rt = example_runtime and vs = "[VString ''first'', VBoolean True]"
        and c = "CallParam VNull" and b = new_SQLBuilder and v = "VString ''x''" and cs = ?cs]
  note t1 = t [THEN conjunct1, rule_format, of new_SQLBuilder "[''{param0:String}'', ''{param1:UInt8}'']" ?b']
  note t2 = t [THEN conjunct2, THEN conjunct1, rule_format]
  note t3 = t [THEN conjunct2, THEN conjunct2, rule_format, OF h3]
  have pre: "(new_SQLBuilder = new_SQLBuilder \<or> sb_reset new_SQLBuilder = Inr new_SQLBuilder)
      \<and> sb_params example_runtime [VString ''first'', VBoolean True] new_SQLBuilder
          = Inr ([''{param0:String}'', ''{param1:UInt8}''], ?b')"
    using h1 by blast
  have "paramValue example_runtime ([VString ''first'', VBoolean True] ! 1) = Inr (sb_getParams ?b' ! 1)
             \<and> [''{param0:String}'', ''{param1:UInt8}''] ! 1
                = placeholder 1 (inferClickHouseType (sb_getParams ?b' ! 1) ([VString ''first'', VBoolean True] ! 1))"
    by (rule t1 [OF pre, THEN conjunct2, THEN conjunct2, THEN conjunct2, rule_format, of 1]) simp
  then have a: "paramValue example_runtime (VBoolean True) = Inr (VNumber (Finite 1))
     \<and> ''{param1:UInt8}'' = placeholder 1 (inferClickHouseType (VNumber (Finite 1)) (VBoolean True))"
    by (simp add: sb_getParams_def)
  have b: "CallParam VNull \<noteq> CallReset
     \<and> paramCounter new_SQLBuilder \<le> paramCounter (state_after example_runtime (CallParam VNull) new_SQLBuilder)"
    using t2 by simp
  have c: "paramValue example_runtime (VString ''x'') = Inr ([VNumber (Finite 7), VString ''x''] ! 1)"
    using t3 unfolding st by (simp add: sb_getParams_def)
  from h1 a b h3 c show ?thesis by blast
qed

section \<open>Statement factories\<close>

lemma sb_deleteFrom_valid:
  "valid_name table \<Longrightarrow>
   sb_deleteFrom table b = Inr (b\<lparr>parts := parts b @ [''DELETE FROM'', quoted table]\<rparr>)"
  by (simp add: sb_deleteFrom_def push_identifier_def push_def sb_identifier_valid)

lemma sb_update_valid:
  "valid_name table \<Longrightarrow>
   sb_update table b = Inr (b\<lparr>parts := parts b @ [''UPDATE'', quoted table]\<rparr>)"
  by (simp add: sb_update_def push_identifier_def push_def sb_identifier_valid)

lemma sb_from_valid:
  "valid_name table \<Longrightarrow>
   sb_from table None b = Inr (b\<lparr>parts := parts b @ [''FROM'', quoted table]\<rparr>)"
  by (simp add: sb_from_def push_alias_def push_identifier_def push_def sb_identifier_valid)

lemma where_equalities_empty: "where_equalities rt [] b = Inr b"
  by (simp add: where_equalities_def)

lemma sb_set_empty: "sb_set rt [] b = Inr (b\<lparr>parts := parts b @ [''SET'', []]\<rparr>)"
  by (simp add: sb_set_def push_def)

lemma run_then_return: "run (fs @ [\<lambda>b. Inr b]) b = run fs b"
  by (induction fs arbitrary: b) (simp_all split: sum.splits)

lemma escaped_backtick_first: "\<exists>r. escapeIdentifier s = CHR 0x60 # r"
proof -
  obtain t ts where "split CHR ''.'' s = t # ts"
    using split_not_Nil [of "CHR ''.''" s] by (cases "split CHR ''.'' s") auto
  then show ?thesis
    by (cases ts) (simp_all add: escapeIdentifier_def)
qed

lemma sb_identifier_backtick_first:
  assumes "sb_identifier n = Inr q"
  shows "\<exists>r. q = CHR 0x60 # r"
proof -
  from assms have "q = escapeIdentifier (name_value n)"
    by (auto simp: sb_identifier_def split: sum.splits)
  then show ?thesis
    using escaped_backtick_first [of "name_value n"] by simp
qed

lemma assignments_items:
  "assignments rt entries b = Inr (items, b') \<Longrightarrow>
   parts b' = parts b \<and> (\<forall>i\<in>set items. \<exists>r. i = CHR 0x60 # r)"
proof (induction entries arbitrary: b items b')
  case Nil
  then show ?case by simp
next
  case (Cons entry entries)
  obtain key v where entry: "entry = (key, v)" by (cases entry)
  from Cons.prems entry obtain q ph b1 rest
    where q: "sb_identifier (NameString key) = Inr q"
      and p: "sb_param rt v b = Inr (ph, b1)"
      and r: "assignments rt entries b1 = Inr (rest, b')"
      and items: "items = (q @ '' = '' @ ph) # rest"
    by (auto split: sum.splits prod.splits)
  from sb_param_Inr [OF p] have "parts b1 = parts b" by auto
  moreover from sb_identifier_backtick_first [OF q] obtain r0 where "q = CHR 0x60 # r0" by blast
  ultimately show ?case
    using Cons.IH [OF r] items by auto
qed

lemma join_backtick_first:
  assumes "\<forall>i\<in>set items. \<exists>r. i = CHR 0x60 # r"
  shows "join sep items = [] \<or> (\<exists>r. join sep items = CHR 0x60 # r)"
proof (cases items)
  case Nil
  then show ?thesis by simp
next
  case (Cons i rest)
  with assms obtain r where "i = CHR 0x60 # r" by auto
  with Cons show ?thesis by (cases rest) simp_all
qed

lemma update_without_filter_parts:
  assumes "run [sb_update table, sb_set rt data, where_equalities rt []] new_SQLBuilder = Inr b"
  shows "''WHERE'' \<notin> set (parts b)"
proof -
  from assms obtain b1 where u: "sb_update table new_SQLBuilder = Inr b1"
    and s: "sb_set rt data b1 = Inr b"
    by (auto simp: where_equalities_empty split: sum.splits)
  from u obtain q where q: "sb_identifier (NameString table) = Inr q"
    and b1: "b1 = new_SQLBuilder\<lparr>parts := [''UPDATE'', q]\<rparr>"
    by (auto simp: sb_update_def push_identifier_def push_def new_SQLBuilder_def split: sum.splits)
  from s obtain items b2 where a: "assignments rt data (push ''SET'' b1) = Inr (items, b2)"
    and b: "b = push (join '', '' items) b2"
    by (auto simp: sb_set_def split: sum.splits prod.splits)
  from assignments_items [OF a] have p2: "parts b2 = parts b1 @ [''SET'']"
    and it: "\<forall>i\<in>set items. \<exists>r. i = CHR 0x60 # r"
    by (simp_all add: push_def)
  from sb_identifier_backtick_first [OF q] have "q \<noteq> ''WHERE''" by auto
  moreover from join_backtick_first [OF it, of "'', ''"] have "join '', '' items \<noteq> ''WHERE''" by auto
  ultimately show ?thesis
    using b p2 b1 by (simp add: push_def)
qed

lemma sb_identifiers_backtick_first:
  "sb_identifiers ns = Inr qs \<Longrightarrow> \<forall>q\<in>set qs. \<exists>r. q = CHR 0x60 # r"
proof (induction ns arbitrary: qs)
  case Nil
  then show ?case by simp
next
  case (Cons n ns)
  from Cons.prems obtain q rest where q: "sb_identifier (NameString n) = Inr q"
    and rest: "sb_identifiers ns = Inr rest" and qs: "qs = q # rest"
    by (auto split: sum.splits)
  from sb_identifier_backtick_first [OF q] Cons.IH [OF rest] qs show ?case by auto
qed

lemma run_preserves:
  assumes "\<And>f b b'. f \<in> set fs \<Longrightarrow> P b \<Longrightarrow> f b = Inr b' \<Longrightarrow> P b'"
    and "P b" and "run fs b = Inr b'"
  shows "P b'"
  using assms
proof (induction fs arbitrary: b)
  case Nil
  then show ?case by simp
next
  case (Cons f fs)
  from Cons.prems(3) obtain b1 where f: "f b = Inr b1" and r: "run fs b1 = Inr b'"
    by (auto split: sum.splits)
  from Cons.prems(1) [of f b b1] Cons.prems(2) f have "P b1" by simp
  from Cons.IH [OF _ this r] Cons.prems(1) show ?case by auto
qed

lemma select_no_WHERE:
  assumes "sb_select fs b = Inr b'" and "''WHERE'' \<notin> set (parts b)"
  shows "''WHERE'' \<notin> set (parts b')"
proof (cases "''*'' \<in> set fs")
  case True
  with assms show ?thesis
    by (auto simp: sb_select_def push_def Let_def split: if_splits)
next
  case False
  with assms obtain qs where qs: "sb_identifiers fs = Inr qs"
    and b': "parts b' = parts b @ [''SELECT'', join '', '' qs]"
    by (auto simp: sb_select_def push_def Let_def split: if_splits sum.splits)
  from join_backtick_first [OF sb_identifiers_backtick_first [OF qs], of "'', ''"]
  have "join '', '' qs \<noteq> ''WHERE''" by auto
  with b' assms(2) show ?thesis by simp
qed

lemma push_identifier_no_WHERE:
  assumes "push_identifier n b = Inr b'" and "''WHERE'' \<notin> set (parts b)"
  shows "''WHERE'' \<notin> set (parts b')"
proof -
  from assms(1) obtain q where q: "sb_identifier (NameString n) = Inr q" and b': "b' = push q b"
    by (auto simp: push_identifier_def split: sum.splits)
  from sb_identifier_backtick_first [OF q] have "q \<noteq> ''WHERE''" by auto
  with b' assms(2) show ?thesis by (simp add: push_def)
qed

lemma from_no_WHERE:
  assumes "sb_from table None b = Inr b'" and "''WHERE'' \<notin> set (parts b)"
  shows "''WHERE'' \<notin> set (parts b')"
proof -
  from assms(1) have "push_identifier table (push ''FROM'' b) = Inr b'"
    by (auto simp: sb_from_def push_alias_def split: sum.splits)
  moreover from assms(2) have "''WHERE'' \<notin> set (parts (push ''FROM'' b))"
    by (simp add: push_def)
  ultimately show ?thesis by (rule push_identifier_no_WHERE)
qed

lemma orderBy_no_WHERE:
  assumes "sb_orderBy field dir b = Inr b'" and "''WHERE'' \<notin> set (parts b)"
  shows "''WHERE'' \<notin> set (parts b')"
proof -
  define d where "d = direction_text (case dir of None \<Rightarrow> ASC | Some x \<Rightarrow> x)"
  have d: "d \<noteq> ''WHERE''"
    by (cases "case dir of None \<Rightarrow> ASC | Some x \<Rightarrow> x") (simp_all add: d_def)
  from assms(1) obtain kw b1 where kw: "kw = '','' \<or> kw = ''ORDER BY''"
    and b1: "push_identifier field (push kw b) = Inr b1" and b': "b' = push d b1"
    by (auto simp: sb_orderBy_def Let_def d_def split: if_splits sum.splits)
  from kw assms(2) have "''WHERE'' \<notin> set (parts (push kw b))"
    by (auto simp: push_def)
  from push_identifier_no_WHERE [OF b1 this] b' d show ?thesis
    by (simp add: push_def)
qed

lemma decimal_not_WHERE: "decimal n \<noteq> ''WHERE''"
proof
  assume "decimal n = ''WHERE''"
  with decimal_digits [of n] have "list_all is_digit ''WHERE''" by simp
  then show False by (simp add: is_digit_def)
qed

lemma String_of_number_not_WHERE:
  assumes "\<forall>q. Number_toString rt q \<noteq> ''WHERE''"
  shows "String_of_number rt n \<noteq> ''WHERE''"
  using assms decimal_not_WHERE
  by (cases n) (auto simp: String_of_number_def)

lemma limit_no_WHERE:
  assumes "\<forall>q. Number_toString rt q \<noteq> ''WHERE''"
    and "sb_limit rt n b = Inr b'" and "''WHERE'' \<notin> set (parts b)"
  shows "''WHERE'' \<notin> set (parts b')"
  using assms(2,3) String_of_number_not_WHERE [OF assms(1), of n]
  by (auto simp: sb_limit_def push_def split: if_splits)

lemma offset_no_WHERE:
  assumes "\<forall>q. Number_toString rt q \<noteq> ''WHERE''"
    and "sb_offset rt n b = Inr b'" and "''WHERE'' \<notin> set (parts b)"
  shows "''WHERE'' \<notin> set (parts b')"
  using assms(2,3) String_of_number_not_WHERE [OF assms(1), of n]
  by (auto simp: sb_offset_def push_def split: if_splits)

lemma select_without_filter_parts:
  assumes rt: "\<forall>q. Number_toString rt q \<noteq> ''WHERE''"
    and w: "opt_where options = None \<or> opt_where options = Some []"
    and r: "run (buildSelect_steps rt table options) new_SQLBuilder = Inr b"
  shows "''WHERE'' \<notin> set (parts b)"
proof -
  have "f \<in> set (buildSelect_steps rt table options) \<Longrightarrow> ''WHERE'' \<notin> set (parts b0)
        \<Longrightarrow> f b0 = Inr b1 \<Longrightarrow> ''WHERE'' \<notin> set (parts b1)" for f b0 b1
  proof -
    assume f: "f \<in> set (buildSelect_steps rt table options)"
      and p: "''WHERE'' \<notin> set (parts b0)" and s: "f b0 = Inr b1"
    from f consider
        (select) "f = sb_select (case opt_fields options of None \<Rightarrow> [''*''] | Some fs \<Rightarrow> fs)"
      | (source) "f = sb_from table None"
      | (filter) "f = (\<lambda>b. case opt_where options of None \<Rightarrow> Inr b
                        | Some where_map \<Rightarrow> where_equalities rt where_map b)"
      | (order) "f = (\<lambda>b. case opt_orderBy options of None \<Rightarrow> Inr b
            | Some order \<Rightarrow> run (map (\<lambda>(field, direction). sb_orderBy field (Some direction)) order) b)"
      | (limit) "f = (\<lambda>b. case opt_limit options of None \<Rightarrow> Inr b | Some n \<Rightarrow> sb_limit rt n b)"
      | (offset) "f = (\<lambda>b. case opt_offset options of None \<Rightarrow> Inr b | Some n \<Rightarrow> sb_offset rt n b)"
      by (auto simp: buildSelect_steps_def)
    then show "''WHERE'' \<notin> set (parts b1)"
    proof cases
      case select
      with s p show ?thesis using select_no_WHERE by blast
    next
      case source
      with s p show ?thesis using from_no_WHERE by blast
    next
      case filter
      with s p w show ?thesis by (auto simp: where_equalities_empty)
    next
      case order
      show ?thesis
      proof (cases "opt_orderBy options")
        case None
        with order s p show ?thesis by simp
      next
        case (Some ord)
        with order s
        have "run (map (\<lambda>(field, direction). sb_orderBy field (Some direction)) ord) b0 = Inr b1"
          by simp
        moreover have "g \<in> set (map (\<lambda>(field, direction). sb_orderBy field (Some direction)) ord)
            \<Longrightarrow> ''WHERE'' \<notin> set (parts x) \<Longrightarrow> g x = Inr y \<Longrightarrow> ''WHERE'' \<notin> set (parts y)" for g x y
          using orderBy_no_WHERE by auto
        ultimately show ?thesis
          using run_preserves [where P = "\<lambda>b. ''WHERE'' \<notin> set (parts b)"] p by blast
      qed
    next
      case limit
      with s p rt show ?thesis
        using limit_no_WHERE by (cases "opt_limit options") auto
    next
      case offset
      with s p rt show ?thesis
        using offset_no_WHERE by (cases "opt_offset options") auto
    qed
  qed
  moreover have "''WHERE'' \<notin> set (parts new_SQLBuilder)"
    by (simp add: new_SQLBuilder_def)
  ultimately show ?thesis
    using run_preserves [where P = "\<lambda>b. ''WHERE'' \<notin> set (parts b)", OF _ _ r] by blast
qed

lemma buildInsert_empty_record:
  assumes "valid_name table"
  shows "buildInsert rt table (OneRecord [])
    = Inr \<lparr>sql = ''INSERT INTO '' @ quoted table @ '' () VALUES ()'', params = []\<rparr>"
  using assms
  by (simp add: buildInsert_def sb_insertInto_def sb_values_def push_identifier_def push_def
      sb_identifier_valid new_SQLBuilder_def finish_def sb_build_def)

text \<open>
  C9. A filter with no keys is a step that changes nothing: no part, no parameter,
  no error. \<^verbatim>\<open>buildSelect\<close> with such a filter is \<^verbatim>\<open>buildSelect\<close> with no filter,
  and no part of its statement is \<^verbatim>\<open>WHERE\<close> (given that the runtime prints no number
  as that word); \<^verbatim>\<open>buildUpdate\<close> is the statement of \<^verbatim>\<open>update\<close> and \<^verbatim>\<open>set\<close> alone,
  none of whose parts is \<^verbatim>\<open>WHERE\<close>. With a valid table name, \<^verbatim>\<open>buildDelete\<close> returns
  \<^verbatim>\<open>DELETE FROM\<close> and the quoted table with no parameters, and \<^verbatim>\<open>buildSelect\<close> with
  nothing but the empty filter returns \<^verbatim>\<open>SELECT * FROM\<close> and the quoted table.
\<close>

theorem empty_filter_adds_nothing:
  "where_equalities rt [] b = Inr b
   \<and> buildSelect rt table (options\<lparr>opt_where := Some []\<rparr>) = buildSelect rt table (options\<lparr>opt_where := None\<rparr>)
   \<and> buildUpdate rt table data [] = finish (run [sb_update table, sb_set rt data] new_SQLBuilder)
   \<and> (\<forall>b'. run [sb_update table, sb_set rt data, where_equalities rt []] new_SQLBuilder = Inr b' \<longrightarrow>
         ''WHERE'' \<notin> set (parts b'))
   \<and> (\<forall>b'. (\<forall>q. Number_toString rt q \<noteq> ''WHERE'')
         \<and> run (buildSelect_steps rt table (options\<lparr>opt_where := Some []\<rparr>)) new_SQLBuilder = Inr b' \<longrightarrow>
         ''WHERE'' \<notin> set (parts b'))
   \<and> (valid_name table \<longrightarrow>
         run [sb_deleteFrom table, where_equalities rt []] new_SQLBuilder
           = Inr \<lparr>parts = [''DELETE FROM'', quoted table], parameters = [], paramCounter = 0\<rparr>
       \<and> buildDelete rt table [] = Inr \<lparr>sql = ''DELETE FROM '' @ quoted table, params = []\<rparr>
       \<and> buildSelect rt table
            \<lparr>opt_fields = None, opt_where = Some [], opt_orderBy = None, opt_limit = None, opt_offset = None\<rparr>
           = Inr \<lparr>sql = ''SELECT * FROM '' @ quoted table, params = []\<rparr>)"
proof (intro conjI allI impI)
  show "where_equalities rt [] b = Inr b" by (rule where_equalities_empty)
  show "buildSelect rt table (options\<lparr>opt_where := Some []\<rparr>) = buildSelect rt table (options\<lparr>opt_where := None\<rparr>)"
    by (simp add: buildSelect_def buildSelect_steps_def where_equalities_empty)
  show "buildUpdate rt table data [] = finish (run [sb_update table, sb_set rt data] new_SQLBuilder)"
    using run_then_return [of "[sb_update table, sb_set rt data]" new_SQLBuilder]
    by (simp add: buildUpdate_def where_equalities_empty [abs_def])
  show "\<And>b'. run [sb_update table, sb_set rt data, where_equalities rt []] new_SQLBuilder = Inr b'
        \<Longrightarrow> ''WHERE'' \<notin> set (parts b')"
    by (rule update_without_filter_parts)
  show "\<And>b'. (\<forall>q. Number_toString rt q \<noteq> ''WHERE'')
         \<and> run (buildSelect_steps rt table (options\<lparr>opt_where := Some []\<rparr>)) new_SQLBuilder = Inr b'
        \<Longrightarrow> ''WHERE'' \<notin> set (parts b')"
    using select_without_filter_parts [of rt "options\<lparr>opt_where := Some []\<rparr>" table] by simp
next
  assume v: "valid_name table"
  then show "run [sb_deleteFrom table, where_equalities rt []] new_SQLBuilder
           = Inr \<lparr>parts = [''DELETE FROM'', quoted table], parameters = [], paramCounter = 0\<rparr>"
    by (simp add: sb_deleteFrom_valid where_equalities_empty new_SQLBuilder_def)
  from v show "buildDelete rt table [] = Inr \<lparr>sql = ''DELETE FROM '' @ quoted table, params = []\<rparr>"
    by (simp add: buildDelete_def sb_deleteFrom_valid where_equalities_empty new_SQLBuilder_def
        finish_def sb_build_def)
  from v show "buildSelect rt table
            \<lparr>opt_fields = None, opt_where = Some [], opt_orderBy = None, opt_limit = None, opt_offset = None\<rparr>
           = Inr \<lparr>sql = ''SELECT * FROM '' @ quoted table, params = []\<rparr>"
    by (simp add: buildSelect_def buildSelect_steps_def sb_select_def sb_from_valid where_equalities_empty
        new_SQLBuilder_def finish_def sb_build_def push_def)
qed

theorem empty_filter_adds_nothing_witness:
  "valid_name ''users''
   \<and> buildDelete example_runtime ''users'' [] = Inr \<lparr>sql = ''DELETE FROM `users`'', params = []\<rparr>
   \<and> buildSelect example_runtime ''users''
        \<lparr>opt_fields = None, opt_where = Some [], opt_orderBy = None, opt_limit = None, opt_offset = None\<rparr>
       = Inr \<lparr>sql = ''SELECT * FROM `users`'', params = []\<rparr>
   \<and> run [sb_update ''users'', sb_set example_runtime [(''name'', VString ''John'')],
           where_equalities example_runtime []] new_SQLBuilder
       = Inr \<lparr>parts = [''UPDATE'', ''`users`'', ''SET'', ''`name` = {param0:String}''],
              parameters = [VString ''John''], paramCounter = 1\<rparr>
   \<and> ''WHERE'' \<notin> set [''UPDATE'', ''`users`'', ''SET'', ''`name` = {param0:String}'']
   \<and> run (buildSelect_steps example_runtime ''users''
             \<lparr>opt_fields = None, opt_where = Some [], opt_orderBy = Some [(''name'', DESC)],
                opt_limit = Some (Finite 10), opt_offset = None\<rparr>) new_SQLBuilder
       = Inr \<lparr>parts = [''SELECT'', ''*'', ''FROM'', ''`users`'', ''ORDER BY'', ''`name`'', ''DESC'',
                       ''LIMIT'', ''10''],
              parameters = [], paramCounter = 0\<rparr>
   \<and> ''WHERE'' \<notin> set [''SELECT'', ''*'', ''FROM'', ''`users`'', ''ORDER BY'', ''`name`'', ''DESC'',
                       ''LIMIT'', ''10'']"
proof -
  have v: "valid_name ''users''" and n: "valid_name ''name''"
    by (simp_all add: name_eval)
  have q: "quoted ''users'' = ''`users`''" "quoted ''name'' = ''`name`''"
    by (simp_all add: name_eval)
  let ?b = "\<lparr>parts = [''UPDATE'', ''`users`'', ''SET'', ''`name` = {param0:String}''],
              parameters = [VString ''John''], paramCounter = 1\<rparr>"
  let ?o = "\<lparr>opt_fields = None, opt_where = None, opt_orderBy = Some [(''name'', DESC)],
                opt_limit = Some (Finite 10), opt_offset = None\<rparr>"
  let ?s = "\<lparr>parts = [''SELECT'', ''*'', ''FROM'', ''`users`'', ''ORDER BY'', ''`name`'', ''DESC'',
                       ''LIMIT'', ''10''],
              parameters = [], paramCounter = 0\<rparr>"
  have r: "run [sb_update ''users'', sb_set example_runtime [(''name'', VString ''John'')],
           where_equalities example_runtime []] new_SQLBuilder = Inr ?b"
    by (simp add: sb_update_valid [OF v] sb_set_def sb_identifier_valid [OF n] q push_def
        where_equalities_empty param_eval)
  have ten: "String_of_number example_runtime (Finite 10) = ''10''"
    using String_of_number_nat [of 10 example_runtime] by (simp add: decimal_10)
  have o: "\<not> includes_str ''SELECT * FROM `users`'' ''ORDER BY''"
    by simp
  have s: "run (buildSelect_steps example_runtime ''users'' (?o\<lparr>opt_where := Some []\<rparr>)) new_SQLBuilder
      = Inr ?s"
    by (simp add: buildSelect_steps_def sb_select_def sb_from_valid [OF v] where_equalities_empty
        sb_orderBy_valid [OF n] sb_toSQL_def o sb_limit_def ten q push_def new_SQLBuilder_def)
  have rt: "\<forall>q. Number_toString example_runtime q \<noteq> ''WHERE''"
    by (simp add: example_runtime_def)
  note t = empty_filter_adds_nothing [where rt = example_runtime and table = "''users''"
      and data = "[(''name'', VString ''John'')]" and options = ?o]
  from t [THEN conjunct2, THEN conjunct2, THEN conjunct2, THEN conjunct1, rule_format, OF r]
  have w: "''WHERE'' \<notin> set [''UPDATE'', ''`users`'', ''SET'', ''`name` = {param0:String}'']"
    by simp
  from t [THEN conjunct2, THEN conjunct2, THEN conjunct2, THEN conjunct2, THEN conjunct1, rule_format,
      OF conjI [OF rt s]]
  have w2: "''WHERE'' \<notin> set [''SELECT'', ''*'', ''FROM'', ''`users`'', ''ORDER BY'', ''`name`'', ''DESC'',
                       ''LIMIT'', ''10'']"
    by simp
  from t [THEN conjunct2, THEN conjunct2, THEN conjunct2, THEN conjunct2, THEN conjunct2, rule_format, OF v]
  have d: "buildDelete example_runtime ''users'' [] = Inr \<lparr>sql = ''DELETE FROM `users`'', params = []\<rparr>
     \<and> buildSelect example_runtime ''users''
        \<lparr>opt_fields = None, opt_where = Some [], opt_orderBy = None, opt_limit = None, opt_offset = None\<rparr>
       = Inr \<lparr>sql = ''SELECT * FROM `users`'', params = []\<rparr>"
    by (simp add: q)
  have s': "run (buildSelect_steps example_runtime ''users''
             \<lparr>opt_fields = None, opt_where = Some [], opt_orderBy = Some [(''name'', DESC)],
                opt_limit = Some (Finite 10), opt_offset = None\<rparr>) new_SQLBuilder = Inr ?s"
    using s by simp
  from v d r w s' w2 show ?thesis by blast
qed

lemma buildUpdate_empty_data:
  assumes "valid_name table"
  shows "buildUpdate rt table [] where_map
          = finish (where_equalities rt where_map
                      \<lparr>parts = [''UPDATE'', quoted table, ''SET'', []], parameters = [], paramCounter = 0\<rparr>)"
    and "buildUpdate rt table [] [] = Inr \<lparr>sql = ''UPDATE '' @ quoted table @ '' SET '', params = []\<rparr>"
  using assms
  by (simp_all add: buildUpdate_def sb_update_valid sb_set_empty new_SQLBuilder_def where_equalities_empty
      finish_def sb_build_def split: sum.splits)

text \<open>
  C5, as amended. \<^verbatim>\<open>buildInsert\<close> rejects the empty list of records with
  \<^verbatim>\<open>SQLInjectionError\<close>, whatever the table name is and before any builder call.
  \<^verbatim>\<open>buildDelete\<close> does not reject the empty filter: with a valid table name it
  returns the unfiltered statement, with no parameters.
\<close>

theorem factories_on_empty_input:
  "buildInsert rt table (Records []) = Inl (SQLInjectionError ''INSERT requires at least one record'' None)
   \<and> (valid_name table \<longrightarrow>
        buildDelete rt table [] = Inr \<lparr>sql = ''DELETE FROM '' @ quoted table, params = []\<rparr>)"
proof (intro conjI impI)
  show "buildInsert rt table (Records []) = Inl (SQLInjectionError ''INSERT requires at least one record'' None)"
    by (simp add: buildInsert_def)
next
  assume "valid_name table"
  then have "run [sb_deleteFrom table, where_equalities rt []] new_SQLBuilder
      = Inr \<lparr>parts = [''DELETE FROM'', quoted table], parameters = [], paramCounter = 0\<rparr>"
    by (simp add: sb_deleteFrom_valid where_equalities_empty new_SQLBuilder_def)
  then show "buildDelete rt table [] = Inr \<lparr>sql = ''DELETE FROM '' @ quoted table, params = []\<rparr>"
    by (simp add: buildDelete_def finish_def sb_build_def)
qed

theorem factories_on_empty_input_witness:
  "valid_name ''db.events''
   \<and> buildInsert example_runtime ''db.events'' (Records [])
       = Inl (SQLInjectionError ''INSERT requires at least one record'' None)
   \<and> buildDelete example_runtime ''db.events'' []
       = Inr \<lparr>sql = ''DELETE FROM `db`.`events`'', params = []\<rparr>"
proof -
  have v: "valid_name ''db.events''"
    by (simp add: name_eval)
  have q: "quoted ''db.events'' = ''`db`.`events`''"
    by (simp add: name_eval)
  note t = factories_on_empty_input [where rt = example_runtime and table = "''db.events''"]
  from t [THEN conjunct1] t [THEN conjunct2, rule_format, OF v] v show ?thesis
    by (simp add: q)
qed

text \<open>
  The claim as first stated, that each factory throws on its empty input, fails for
  \<^verbatim>\<open>buildDelete\<close>, which returns a statement.
\<close>

theorem delete_accepts_empty_filter_counterexample:
  "buildDelete example_runtime ''users'' [] = Inr \<lparr>sql = ''DELETE FROM `users`'', params = []\<rparr>"
proof -
  have v: "valid_name ''users''" by (simp add: name_eval)
  have q: "quoted ''users'' = ''`users`''" by (simp add: name_eval)
  show ?thesis
    by (simp add: buildDelete_def sb_deleteFrom_valid [OF v] where_equalities_empty new_SQLBuilder_def
        finish_def sb_build_def q)
qed

section \<open>Condition compiler: grouping\<close>

lemma bracketing_Nil: "bracketing v [] x \<longleftrightarrow> x = v"
proof
  assume "bracketing v [] x"
  then show "x = v" by cases simp_all
next
  assume "x = v"
  then show "bracketing v [] x" by (simp add: bracketing.operand)
qed

lemma bracketing_all_AND:
  "bracketing v ps x \<Longrightarrow> \<forall>p\<in>set ps. fst p = AND \<Longrightarrow> x = (v \<and> (\<forall>p\<in>set ps. snd p))"
  by (induction rule: bracketing.induct) auto

lemma bracketing_all_OR:
  "bracketing v ps x \<Longrightarrow> \<forall>p\<in>set ps. fst p = OR \<Longrightarrow> x = (v \<or> (\<exists>p\<in>set ps. snd p))"
  by (induction rule: bracketing.induct) auto

lemma bracketing_exists: "\<exists>x. bracketing v ps x"
proof (induction ps arbitrary: v)
  case Nil
  show ?case using bracketing.operand by blast
next
  case (Cons p ps)
  obtain k w where p: "p = (k, w)" by (cases p)
  from Cons [of w] obtain y where "bracketing w ps y" by blast
  from bracketing.binary [OF bracketing.operand [of v] this, of k]
  show ?case using p by auto
qed

lemma bracketed_operand: "bracketed {(v, [])} = {v}"
  by (auto simp: bracketed_def bracketing_Nil)

lemma bracketed_operands: "bracketed ((\<lambda>x. (g x, [])) ` A) = g ` A"
proof (intro set_eqI iffI)
  fix y assume "y \<in> bracketed ((\<lambda>x. (g x, [])) ` A)"
  then show "y \<in> g ` A"
    by (auto simp: bracketed_def bracketing_Nil)
next
  fix y assume "y \<in> g ` A"
  then obtain x where "x \<in> A" "y = g x" by blast
  then have "(g x, []) \<in> (\<lambda>x. (g x, [])) ` A \<and> bracketing (g x) [] y"
    by (simp add: bracketing_Nil)
  then show "y \<in> bracketed ((\<lambda>x. (g x, [])) ` A)"
    unfolding bracketed_def by blast
qed

lemma readings_Text: "readings env (Text s) = {env s}"
  by (simp add: readings_def bracketed_operand)

lemma readings_Parenthesized: "readings env (Parenthesized f) = readings env f"
  by (simp add: readings_def bracketed_operands)

lemma readings_Negated: "readings env (Negated f) = Not ` readings env f"
  by (simp add: readings_def bracketed_operands)

lemma level_operand_form:
  assumes "operand_form f"
  shows "level env f = (\<lambda>x. (x, [])) ` readings env f"
proof (cases f)
  case (Text s)
  then show ?thesis by (simp add: readings_Text)
next
  case (Joined k fs)
  with assms show ?thesis by simp
next
  case (Parenthesized g)
  then show ?thesis by (simp add: readings_Parenthesized) (simp add: readings_def)
next
  case (Negated g)
  then show ?thesis by (simp add: readings_Negated image_image) (simp add: readings_def)
qed

lemma spliced_operands:
  "spliced k (map (\<lambda>v. (v, [])) (v # vs)) = Some (v, map (\<lambda>w. (k, w)) vs)"
  by (induction vs arbitrary: v) simp_all

lemma list_all2_singletons:
  assumes "\<And>f. f \<in> set fs \<Longrightarrow> A f = {g f}"
  shows "list_all2 (\<lambda>f s. s \<in> A f) fs ss \<longleftrightarrow> ss = map g fs"
  using assms
proof (induction fs arbitrary: ss)
  case Nil
  show ?case by simp
next
  case (Cons f fs)
  then show ?case by (cases ss) auto
qed

lemma readings_uniform:
  "{x. bracketing v (map (\<lambda>w. (k, w)) ws) x}
     = {case k of AND \<Rightarrow> v \<and> list_all id ws | OR \<Rightarrow> v \<or> list_ex id ws}"
proof -
  obtain x where x: "bracketing v (map (\<lambda>w. (k, w)) ws) x"
    using bracketing_exists by blast
  have "y = (case k of AND \<Rightarrow> v \<and> list_all id ws | OR \<Rightarrow> v \<or> list_ex id ws)"
    if "bracketing v (map (\<lambda>w. (k, w)) ws) y" for y
  proof (cases k)
    case AND
    with bracketing_all_AND [OF that] show ?thesis
      by (auto simp: list_all_iff)
  next
    case OR
    with bracketing_all_OR [OF that] show ?thesis
      by (auto simp: list_ex_iff)
  qed
  with x show ?thesis by auto
qed

lemma meaning_Joined:
  "meaning env (Joined k (f # fs))
     = (case k of AND \<Rightarrow> meaning env f \<and> list_all id (map (meaning env) fs)
               | OR \<Rightarrow> meaning env f \<or> list_ex id (map (meaning env) fs))"
  by (cases k) (simp_all add: list_all_iff list_ex_iff)

lemma readings_well_grouped:
  "well_grouped f \<Longrightarrow> readings env f = {meaning env f}"
proof (induction f)
  case (Text s)
  show ?case by (simp add: readings_Text)
next
  case (Parenthesized f)
  then show ?case by (simp add: readings_Parenthesized)
next
  case (Negated f)
  then show ?case by (simp add: readings_Negated)
next
  case (Joined k fs)
  from Joined.prems obtain g gs where fs: "fs = g # gs"
    by (cases fs) auto
  have lev: "level env c = {(meaning env c, [])}" if "c \<in> set fs" for c
  proof -
    from that Joined.prems have "operand_form c" "well_grouped c"
      by (auto simp: list_all_iff)
    with Joined.IH [OF that] show ?thesis
      by (simp add: level_operand_form)
  qed
  have "level env (Joined k fs) = {s. spliced k (map (\<lambda>c. (meaning env c, [])) fs) = Some s}"
    using list_all2_singletons [of fs "level env" "\<lambda>c. (meaning env c, [])"] lev
    by auto
  also have "map (\<lambda>c. (meaning env c, [])) fs = map (\<lambda>v. (v, [])) (meaning env g # map (meaning env) gs)"
    by (simp add: fs)
  finally have "level env (Joined k fs) = {(meaning env g, map (\<lambda>w. (k, w)) (map (meaning env) gs))}"
    by (simp only: spliced_operands) auto
  then have "readings env (Joined k fs) = {x. bracketing (meaning env g) (map (\<lambda>w. (k, w)) (map (meaning env) gs)) x}"
    by (simp add: readings_def bracketed_def)
  then show ?case
    by (simp only: readings_uniform fs meaning_Joined)
qed

lemma lower_shape:
  "\<forall>f b'. lower rt ch nested c b = Inr (f, b') \<longrightarrow> well_grouped f \<and> (nested \<longrightarrow> operand_form f)"
  "\<forall>fs b'. lower_children rt ch cs b = Inr (fs, b') \<longrightarrow>
      list_all well_grouped fs \<and> list_all operand_form fs \<and> length fs = length cs"
proof (induction rt ch nested c b and rt ch cs b rule: lower_lower_children.induct)
  case (1 rt ch nested field op operand b)
  show ?case by (auto split: sum.splits)
next
  case (2 rt ch nested k children b)
  show ?case
  proof (cases "children = []")
    case True
    then show ?thesis by auto
  next
    case False
    with 2 show ?thesis
      by (auto split: sum.splits)
  qed
next
  case (3 rt ch nested children b)
  then show ?case
    by (auto split: sum.splits list.splits)
next
  case (4 rt ch b)
  show ?case by simp
next
  case (5 rt ch c cs b)
  show ?case
  proof (intro allI impI)
    fix fs b'
    assume a: "lower_children rt ch (c # cs) b = Inr (fs, b')"
    then obtain f b1 gs where f: "lower rt ch True c b = Inr (f, b1)"
      and gs: "lower_children rt ch cs b1 = Inr (gs, b')" and fs: "fs = f # gs"
      by (auto split: sum.splits)
    from 5(1) f have "well_grouped f" "operand_form f" by auto
    moreover from 5(2) [OF f refl] gs
    have "list_all well_grouped gs \<and> list_all operand_form gs \<and> length gs = length cs"
      by auto
    ultimately show "list_all well_grouped fs \<and> list_all operand_form fs \<and> length fs = length (c # cs)"
      using fs by simp
  qed
qed

text \<open>
  Without the parentheses a nested group can be read in two ways, with different
  values: this is what the parentheses of the compiler prevent.
\<close>

lemma bracketing_one: "bracketing v [(k, w)] x \<longleftrightarrow> x = combine k v w"
proof
  assume "bracketing v [(k, w)] x"
  then show "x = combine k v w"
  proof cases
    case (binary ps x' w' qs y k')
    from binary(1) have "ps = []" "qs = []" "k' = k" "w' = w"
      by (auto simp: Cons_eq_append_conv)
    with binary show ?thesis by (simp add: bracketing_Nil)
  qed
next
  assume "x = combine k v w"
  then show "bracketing v [(k, w)] x"
    using bracketing.binary [OF bracketing.operand [of v] bracketing.operand [of w], of k] by simp
qed

lemma bracketing_two:
  "bracketing v [(k, w), (l, u)] x \<longleftrightarrow>
     x = combine k v (combine l w u) \<or> x = combine l (combine k v w) u"
proof
  assume "bracketing v [(k, w), (l, u)] x"
  then show "x = combine k v (combine l w u) \<or> x = combine l (combine k v w) u"
  proof cases
    case (binary ps x' w' qs y k')
    from binary(1) consider (first) "ps = []" "k' = k" "w' = w" "qs = [(l, u)]"
      | (second) "ps = [(k, w)]" "k' = l" "w' = u" "qs = []"
      by (auto simp: Cons_eq_append_conv)
    then show ?thesis
    proof cases
      case first
      with binary show ?thesis by (simp add: bracketing_Nil bracketing_one)
    next
      case second
      with binary show ?thesis by (simp add: bracketing_Nil bracketing_one)
    qed
  qed
next
  assume "x = combine k v (combine l w u) \<or> x = combine l (combine k v w) u"
  then show "bracketing v [(k, w), (l, u)] x"
  proof
    assume x: "x = combine k v (combine l w u)"
    have "bracketing w [(l, u)] (combine l w u)" by (simp add: bracketing_one)
    from bracketing.binary [OF bracketing.operand [of v] this, of k] x show ?thesis by simp
  next
    assume x: "x = combine l (combine k v w) u"
    have "bracketing v [(k, w)] (combine k v w)" by (simp add: bracketing_one)
    from bracketing.binary [OF this bracketing.operand [of u], of l] x show ?thesis by simp
  qed
qed

lemma bare_group_two_readings:
  "readings env (Joined AND [Text a, Joined OR [Text b, Text c]])
     = {env a \<and> (env b \<or> env c), (env a \<and> env b) \<or> env c}"
proof -
  have 1: "level env (Joined OR [Text b, Text c]) = {(env b, [(OR, env c)])}"
    by (auto simp: list_all2_Cons1)
  have "level env (Joined AND [Text a, Joined OR [Text b, Text c]])
      = {(env a, [(AND, env b), (OR, env c)])}"
    unfolding level.simps(4) [of env AND] by (auto simp: list_all2_Cons1 1)
  then show ?thesis
    by (auto simp: readings_def bracketed_def bracketing_two)
qed

lemma bare_group_ambiguous:
  "readings (\<lambda>s. s = ''c'') (Joined AND [Text ''a'', Joined OR [Text ''b'', Text ''c'']]) = {False, True}"
  by (simp add: bare_group_two_readings)

lemma lower_combinator_parenthesized:
  assumes "lower rt ch nested (Combinator k children) b = Inr (f, b')"
    and "children \<noteq> []" and "length children > 1 \<or> nested"
  shows "\<exists>fs. f = Parenthesized (Joined k fs) \<and> length fs = length children
            \<and> render f = ''('' @ join ('' '' @ keyword k @ '' '') (map render fs) @ '')''"
proof -
  from assms obtain fs where fs: "lower_children rt ch children b = Inr (fs, b')"
    and f: "f = Parenthesized (Joined k fs)"
    by (auto split: sum.splits)
  from lower_shape(2) [of rt ch children b] fs have "length fs = length children" by blast
  with f show ?thesis by simp
qed

lemma lower_leaf_Eq_integer:
  assumes "valid_name field" and "isInteger (VNumber n)"
  shows "lower_leaf rt ch field Eq (VNumber n) b
     = Inr (quoted field @ '' '' @ comparison_text ch Eq @ '' '' @ placeholder (paramCounter b) ''Int32'',
            b\<lparr>parameters := parameters b @ [VNumber n], paramCounter := paramCounter b + 1\<rparr>)"
  using assms
  by (simp add: lower_leaf_def lower_comparison_def sb_identifier_valid sb_param_def paramValue_def
      inferClickHouseType_def)

lemma lower_example:
  "lower rt ch False
     (Combinator AND [Leaf ''a'' Eq (VNumber (Finite 1)),
        Combinator OR [Leaf ''b'' Eq (VNumber (Finite 2)), Leaf ''c'' Eq (VNumber (Finite 3))]])
     new_SQLBuilder
   = Inr (Parenthesized (Joined AND
            [Text (''`a` '' @ comparison_text ch Eq @ '' {param0:Int32}''),
             Parenthesized (Joined OR
               [Text (''`b` '' @ comparison_text ch Eq @ '' {param1:Int32}''),
                Text (''`c` '' @ comparison_text ch Eq @ '' {param2:Int32}'')])]),
          \<lparr>parts = [], parameters = [VNumber (Finite 1), VNumber (Finite 2), VNumber (Finite 3)],
             paramCounter = 3\<rparr>)"
proof -
  have v: "valid_name ''a''" "valid_name ''b''" "valid_name ''c''"
    by (simp_all add: name_eval)
  have q: "quoted ''a'' = ''`a`''" "quoted ''b'' = ''`b`''" "quoted ''c'' = ''`c`''"
    by (simp_all add: name_eval)
  have i: "isInteger (VNumber (Finite 1))" "isInteger (VNumber (Finite 2))" "isInteger (VNumber (Finite 3))"
    by simp_all
  show ?thesis
    by (simp add: lower_leaf_Eq_integer v i q placeholder_def decimal_0 decimal_Suc_0 decimal_Suc_Suc_0
        new_SQLBuilder_def)
qed

text \<open>
  C4. Compiling \<^verbatim>\<open>AND(eq(a,1), OR(eq(b,2), eq(c,3)))\<close> gives the text with the OR
  group between parentheses. In general a combinator with children that has more
  than one child or is beneath another combinator lowers to its children joined by
  its keyword, the whole between parentheses. Whatever the nesting, an operand of a
  joined group is never a bare group, and the fragment has exactly one reading: every
  way of bracketing its flat sequences gives the value that the tree means.
\<close>

theorem combinators_parenthesized:
  "compileCondition rt ch
     (Combinator AND [Leaf ''a'' Eq (VNumber (Finite 1)),
        Combinator OR [Leaf ''b'' Eq (VNumber (Finite 2)), Leaf ''c'' Eq (VNumber (Finite 3))]])
     new_SQLBuilder
   = Inr (''(`a` '' @ comparison_text ch Eq @ '' {param0:Int32} AND (`b` '' @ comparison_text ch Eq
            @ '' {param1:Int32} OR `c` '' @ comparison_text ch Eq @ '' {param2:Int32}))'',
          \<lparr>parts = [], parameters = [VNumber (Finite 1), VNumber (Finite 2), VNumber (Finite 3)],
             paramCounter = 3\<rparr>)
   \<and> (\<forall>f b'. lower rt ch nested (Combinator k children) b = Inr (f, b') \<and> children \<noteq> []
          \<and> (length children > 1 \<or> nested) \<longrightarrow>
          (\<exists>fs. f = Parenthesized (Joined k fs) \<and> length fs = length children
             \<and> render f = ''('' @ join ('' '' @ keyword k @ '' '') (map render fs) @ '')''))
   \<and> (\<forall>f b'. lower rt ch nested c b = Inr (f, b') \<longrightarrow>
          well_grouped f \<and> (nested \<longrightarrow> operand_form f) \<and> (\<forall>env. readings env f = {meaning env f}))"
proof (intro conjI allI impI)
  show "compileCondition rt ch
     (Combinator AND [Leaf ''a'' Eq (VNumber (Finite 1)),
        Combinator OR [Leaf ''b'' Eq (VNumber (Finite 2)), Leaf ''c'' Eq (VNumber (Finite 3))]])
     new_SQLBuilder
   = Inr (''(`a` '' @ comparison_text ch Eq @ '' {param0:Int32} AND (`b` '' @ comparison_text ch Eq
            @ '' {param1:Int32} OR `c` '' @ comparison_text ch Eq @ '' {param2:Int32}))'',
          \<lparr>parts = [], parameters = [VNumber (Finite 1), VNumber (Finite 2), VNumber (Finite 3)],
             paramCounter = 3\<rparr>)"
    unfolding compileCondition_def lower_example by simp
next
  fix f b'
  assume "lower rt ch nested (Combinator k children) b = Inr (f, b') \<and> children \<noteq> []
          \<and> (length children > 1 \<or> nested)"
  then show "\<exists>fs. f = Parenthesized (Joined k fs) \<and> length fs = length children
             \<and> render f = ''('' @ join ('' '' @ keyword k @ '' '') (map render fs) @ '')''"
    using lower_combinator_parenthesized by blast
next
  fix f b'
  assume l: "lower rt ch nested c b = Inr (f, b')"
  with lower_shape(1) [of rt ch nested c b] show w: "well_grouped f" by blast
  from l lower_shape(1) [of rt ch nested c b] show "nested \<Longrightarrow> operand_form f" by blast
  from w show "\<And>env. readings env f = {meaning env f}" by (rule readings_well_grouped)
qed

theorem combinators_parenthesized_witness:
  "compileCondition example_runtime example_choices
     (Combinator AND [Leaf ''a'' Eq (VNumber (Finite 1)),
        Combinator OR [Leaf ''b'' Eq (VNumber (Finite 2)), Leaf ''c'' Eq (VNumber (Finite 3))]])
     new_SQLBuilder
   = Inr (''(`a` = {param0:Int32} AND (`b` = {param1:Int32} OR `c` = {param2:Int32}))'',
          \<lparr>parts = [], parameters = [VNumber (Finite 1), VNumber (Finite 2), VNumber (Finite 3)],
             paramCounter = 3\<rparr>)
   \<and> lower example_runtime example_choices True
        (Combinator OR [Leaf ''b'' Eq (VNumber (Finite 2)), Leaf ''c'' Eq (VNumber (Finite 3))])
        new_SQLBuilder
     = Inr (Parenthesized (Joined OR [Text ''`b` = {param0:Int32}'', Text ''`c` = {param1:Int32}'']),
            \<lparr>parts = [], parameters = [VNumber (Finite 2), VNumber (Finite 3)], paramCounter = 2\<rparr>)
   \<and> render (Parenthesized (Joined OR [Text ''`b` = {param0:Int32}'', Text ''`c` = {param1:Int32}'']))
     = ''(`b` = {param0:Int32} OR `c` = {param1:Int32})''
   \<and> readings (\<lambda>s. s = ''`c` = {param1:Int32}'')
        (Parenthesized (Joined OR [Text ''`b` = {param0:Int32}'', Text ''`c` = {param1:Int32}'']))
     = {True}"
proof -
  let ?t = "Combinator OR [Leaf ''b'' Eq (VNumber (Finite 2)), Leaf ''c'' Eq (VNumber (Finite 3))]"
  let ?f = "Parenthesized (Joined OR [Text ''`b` = {param0:Int32}'', Text ''`c` = {param1:Int32}''])"
  let ?b' = "\<lparr>parts = [], parameters = [VNumber (Finite 2), VNumber (Finite 3)], paramCounter = 2\<rparr>"
  have v: "valid_name ''b''" "valid_name ''c''"
    by (simp_all add: name_eval)
  have q: "quoted ''b'' = ''`b`''" "quoted ''c'' = ''`c`''"
    by (simp_all add: name_eval)
  have i: "isInteger (VNumber (Finite 2))" "isInteger (VNumber (Finite 3))"
    by simp_all
  have l: "lower example_runtime example_choices True ?t new_SQLBuilder = Inr (?f, ?b')"
    by (simp add: lower_leaf_Eq_integer v i q placeholder_def decimal_0 decimal_Suc_0
        new_SQLBuilder_def example_choices_def)
  note t = combinators_parenthesized [where rt = example_runtime and ch = example_choices
      and nested = True and k = OR
      and children = "[Leaf ''b'' Eq (VNumber (Finite 2)), Leaf ''c'' Eq (VNumber (Finite 3))]"
      and b = new_SQLBuilder and c = ?t]
  have pre: "lower example_runtime example_choices True ?t new_SQLBuilder = Inr (?f, ?b')
      \<and> [Leaf ''b'' Eq (VNumber (Finite 2)), Leaf ''c'' Eq (VNumber (Finite 3))] \<noteq> []
      \<and> (length [Leaf ''b'' Eq (VNumber (Finite 2)), Leaf ''c'' Eq (VNumber (Finite 3))] > 1 \<or> True)"
    using l by simp
  from t [THEN conjunct1]
  have e: "compileCondition example_runtime example_choices
     (Combinator AND [Leaf ''a'' Eq (VNumber (Finite 1)), ?t]) new_SQLBuilder
   = Inr (''(`a` = {param0:Int32} AND (`b` = {param1:Int32} OR `c` = {param2:Int32}))'',
          \<lparr>parts = [], parameters = [VNumber (Finite 1), VNumber (Finite 2), VNumber (Finite 3)],
             paramCounter = 3\<rparr>)"
    by (simp add: example_choices_def)
  from t [THEN conjunct2, THEN conjunct1, rule_format, OF pre]
  have r: "render ?f = ''(`b` = {param0:Int32} OR `c` = {param1:Int32})''"
    by auto
  from t [THEN conjunct2, THEN conjunct2, rule_format, OF l]
  have "readings (\<lambda>s. s = ''`c` = {param1:Int32}'') ?f
      = {meaning (\<lambda>s. s = ''`c` = {param1:Int32}'') ?f}"
    by blast
  then have m: "readings (\<lambda>s. s = ''`c` = {param1:Int32}'') ?f = {True}"
    by simp
  from e l r m show ?thesis by blast
qed

section \<open>WHERE, AND, OR\<close>

text \<open>
  C10. For every string, \<^verbatim>\<open>where\<close>, \<^verbatim>\<open>and\<close> and \<^verbatim>\<open>or\<close> append their keyword and
  then the string as it is. They return for every argument and builder, and touch
  neither the parameters nor the counter.
\<close>

theorem where_and_or_append_verbatim:
  "sb_where c b = Inr (b\<lparr>parts := parts b @ [''WHERE'', c]\<rparr>)
   \<and> sb_and c b = Inr (b\<lparr>parts := parts b @ [''AND'', c]\<rparr>)
   \<and> sb_or c b = Inr (b\<lparr>parts := parts b @ [''OR'', c]\<rparr>)"
  by (simp add: sb_where_def sb_and_def sb_or_def push_def)

theorem where_and_or_append_verbatim_witness:
  "sb_where ''1=1; DROP TABLE users--'' new_SQLBuilder
     = Inr \<lparr>parts = [''WHERE'', ''1=1; DROP TABLE users--''], parameters = [], paramCounter = 0\<rparr>
   \<and> sb_and ''`x` = '' new_SQLBuilder
     = Inr \<lparr>parts = [''AND'', ''`x` = ''], parameters = [], paramCounter = 0\<rparr>
   \<and> sb_or [] new_SQLBuilder = Inr \<lparr>parts = [''OR'', []], parameters = [], paramCounter = 0\<rparr>"
  using where_and_or_append_verbatim [of "''1=1; DROP TABLE users--''" new_SQLBuilder]
        where_and_or_append_verbatim [of "''`x` = ''" new_SQLBuilder]
        where_and_or_append_verbatim [of "[]" new_SQLBuilder]
  by (simp add: new_SQLBuilder_def)

end
